theory Spec2Isabelle
  imports Main
begin

section \<open>Common data: cells, paths, errors, agents\<close>

text \<open>
  A cell is a pair \<open>(row, col)\<close> of Python integers; a path is a list of cells. A joint
  plan (\<open>Dict[int, List[Tuple[int, int]]]\<close>) is an association list in insertion order,
  which is the iteration order of a Python dictionary.
\<close>

type_synonym cell = "int \<times> int"
type_synonym path = "cell list"
type_synonym solutions = "(int \<times> path) list"

text \<open>The two exceptions the modelled code can raise.\<close>

datatype error = ValueError | IndexError

text \<open>\<open>environment/agent_manager.py\<close>, class \<open>Agent\<close>.\<close>

record Agent =
  agent_id :: int
  agent_start :: cell
  agent_goal :: cell
  agent_path :: path
  agent_cost :: int

text \<open>\<open>Agent.__init__\<close>: a fresh agent has the empty path and cost 0.\<close>

definition new_Agent :: "int \<Rightarrow> cell \<Rightarrow> cell \<Rightarrow> Agent" where
  "new_Agent i s g =
     \<lparr>agent_id = i, agent_start = s, agent_goal = g, agent_path = [], agent_cost = 0\<rparr>"

text \<open>
  Python's \<open>d[k] = v\<close> on a dictionary: an existing key keeps its place, a new key goes
  to the end.
\<close>

fun dict_set :: "('k \<times> 'v) list \<Rightarrow> 'k \<Rightarrow> 'v \<Rightarrow> ('k \<times> 'v) list" where
  "dict_set [] k v = [(k, v)]"
| "dict_set ((k', v') # d) k v =
     (if k' = k then (k, v) # d else (k', v') # dict_set d k v)"

text \<open>
  Python's \<open>max\<close> over a generator of numbers: \<open>ValueError\<close> on the empty sequence.
\<close>

fun py_max :: "'a::linorder list \<Rightarrow> error + 'a" where
  "py_max [] = Inl ValueError"
| "py_max (x # xs) = Inr (foldl max x xs)"

section \<open>Makespan: \<open>utils/metrics.py\<close> and \<open>environment/agent_manager.py\<close>\<close>

text \<open>
  \<open>Metrics.calculate_makespan\<close>: 0 on the empty dictionary, otherwise the maximum of
  \<open>len(path) - 1\<close>. The guard makes the \<open>max\<close> total, so the error branch of
  \<open>py_max\<close> is never reached; it is mapped to the guard's value.
\<close>

definition calculate_makespan :: "solutions \<Rightarrow> int" where
  "calculate_makespan paths =
     (if paths = [] then 0
      else (case py_max (map (\<lambda>(a, p). int (length p) - 1) paths) of
              Inr m \<Rightarrow> m | Inl e \<Rightarrow> 0))"

text \<open>\<open>AgentManager.get_agent_paths\<close>: the dictionary \<open>agent.id \<mapsto> agent.path\<close>.\<close>

definition get_agent_paths :: "Agent list \<Rightarrow> solutions" where
  "get_agent_paths agents = foldl (\<lambda>d a. dict_set d (agent_id a) (agent_path a)) [] agents"

text \<open>
  \<open>AgentManager.get_makespan\<close>: 0 without agents, otherwise the maximum of
  \<open>len(agent.path)\<close> over the agents with a non-empty path (\<open>ValueError\<close> when there is
  none).
\<close>

definition get_makespan :: "Agent list \<Rightarrow> error + int" where
  "get_makespan agents =
     (if agents = [] then Inr 0
      else py_max (map (\<lambda>a. int (length (agent_path a)))
                       (filter (\<lambda>a. agent_path a \<noteq> []) agents)))"

section \<open>Python's \<open>heapq\<close> on a list\<close>

text \<open>
  The open lists of both searches are Python lists handled by \<open>heapq\<close>, which compares
  items with \<open><\<close> only. The functions below follow the pure-Python \<open>heapq\<close> line by
  line; \<open>lt\<close> is the item type's \<open>__lt__\<close>.
\<close>

text \<open>\<open>heapq._siftdown\<close>: the loop, with \<open>newitem = heap[pos]\<close> taken before it.\<close>

function siftdown_loop ::
  "('a \<Rightarrow> 'a \<Rightarrow> bool) \<Rightarrow> 'a list \<Rightarrow> 'a \<Rightarrow> nat \<Rightarrow> nat \<Rightarrow> 'a list" where
  "siftdown_loop lt heap newitem startpos pos =
     (if pos > startpos then
        (let parentpos = (pos - 1) div 2; parent = heap ! parentpos
         in if lt newitem parent
            then siftdown_loop lt (heap[pos := parent]) newitem startpos parentpos
            else heap[pos := newitem])
      else heap[pos := newitem])"
  by pat_completeness auto
termination
  by (relation "measure (\<lambda>(lt, heap, newitem, startpos, pos). pos)") auto

definition siftdown :: "('a \<Rightarrow> 'a \<Rightarrow> bool) \<Rightarrow> 'a list \<Rightarrow> nat \<Rightarrow> nat \<Rightarrow> 'a list" where
  "siftdown lt heap startpos pos = siftdown_loop lt heap (heap ! pos) startpos pos"

text \<open>
  \<open>heapq._siftup\<close>: the loop moves the smaller child up until a leaf is reached and
  returns the heap together with the position of the hole.
\<close>

function siftup_loop ::
  "('a \<Rightarrow> 'a \<Rightarrow> bool) \<Rightarrow> 'a list \<Rightarrow> nat \<Rightarrow> nat \<Rightarrow> nat \<Rightarrow> 'a list \<times> nat" where
  "siftup_loop lt heap endpos pos childpos =
     (if childpos < endpos then
        (let rightpos = childpos + 1;
             childpos' = (if rightpos < endpos \<and> \<not> lt (heap ! childpos) (heap ! rightpos)
                          then rightpos else childpos)
         in siftup_loop lt (heap[pos := heap ! childpos']) endpos childpos' (2 * childpos' + 1))
      else (heap, pos))"
  by pat_completeness auto
termination
  by (relation "measure (\<lambda>(lt, heap, endpos, pos, childpos). endpos - childpos)") auto

definition siftup :: "('a \<Rightarrow> 'a \<Rightarrow> bool) \<Rightarrow> 'a list \<Rightarrow> nat \<Rightarrow> 'a list" where
  "siftup lt heap pos =
     (let newitem = heap ! pos;
          (heap', pos') = siftup_loop lt heap (length heap) pos (2 * pos + 1)
      in siftdown lt (heap'[pos' := newitem]) pos pos')"

definition heappush :: "('a \<Rightarrow> 'a \<Rightarrow> bool) \<Rightarrow> 'a list \<Rightarrow> 'a \<Rightarrow> 'a list" where
  "heappush lt heap item = siftdown lt (heap @ [item]) 0 (length heap)"

text \<open>
  \<open>heapq.heappop\<close> returns the popped item and the remaining heap. Every call in the
  modelled code is guarded by a test that the list is not empty, and the model calls it
  under the same guards only.
\<close>

definition heappop :: "('a \<Rightarrow> 'a \<Rightarrow> bool) \<Rightarrow> 'a list \<Rightarrow> 'a \<times> 'a list" where
  "heappop lt heap =
     (let lastelt = last heap; heap' = butlast heap
      in if heap' \<noteq> [] then (heap' ! 0, siftup lt (heap'[0 := lastelt]) 0)
         else (lastelt, heap'))"

text \<open>\<open>heapq.heapify\<close>: \<open>for i in reversed(range(n // 2)): _siftup(x, i)\<close>.\<close>

definition heapify :: "('a \<Rightarrow> 'a \<Rightarrow> bool) \<Rightarrow> 'a list \<Rightarrow> 'a list" where
  "heapify lt x = foldl (\<lambda>h i. siftup lt h i) x (rev [0 ..< length x div 2])"

section \<open>Grid: \<open>environment/grid.py\<close>\<close>

text \<open>
  The grid is a two-dimensional numpy array; \<open>env_grid e i j\<close> is \<open>grid[i, j]\<close> and is
  read only after the bounds test, as in the source.
\<close>

record GridEnvironment =
  env_grid :: "int \<Rightarrow> int \<Rightarrow> int"
  env_height :: int
  env_width :: int

definition MOVES :: "(int \<times> int) list" where
  "MOVES = [(0, 0), (-1, 0), (0, 1), (1, 0), (0, -1)]"

definition get_neighbors :: "GridEnvironment \<Rightarrow> int \<times> int \<times> int \<Rightarrow> (int \<times> int \<times> int) list" where
  "get_neighbors e state =
     (case state of (x, y, t) \<Rightarrow>
        map (\<lambda>(dx, dy). (x + dx, y + dy, t + 1))
          (filter (\<lambda>(dx, dy).
                     0 \<le> x + dx \<and> x + dx < env_height e \<and> 0 \<le> y + dy \<and> y + dy < env_width e
                     \<and> env_grid e (x + dx) (y + dy) = 0)
                  MOVES))"

definition get_manhattan_distance :: "cell \<Rightarrow> cell \<Rightarrow> int" where
  "get_manhattan_distance pos1 pos2 = \<bar>fst pos1 - fst pos2\<bar> + \<bar>snd pos1 - snd pos2\<bar>"

section \<open>Constraints: \<open>algorithms/constraints.py\<close>\<close>

text \<open>
  Constraints are equal, and hash equal, when \<open>agent_id\<close>, \<open>position\<close> and \<open>time\<close> are:
  a vertex constraint is the triple, and an edge constraint is the triple whose position
  is the pair \<open>(from_pos, to_pos)\<close>.
\<close>

type_synonym VertexConstraint = "int \<times> cell \<times> int"
type_synonym EdgeConstraint = "int \<times> (cell \<times> cell) \<times> int"

definition new_EdgeConstraint :: "int \<Rightarrow> cell \<Rightarrow> cell \<Rightarrow> int \<Rightarrow> EdgeConstraint" where
  "new_EdgeConstraint a from_pos to_pos time = (a, (from_pos, to_pos), time)"

record ConstraintsSet =
  vertex_constraints :: "VertexConstraint set"
  edge_constraints :: "EdgeConstraint set"

definition new_ConstraintsSet :: ConstraintsSet where
  "new_ConstraintsSet = \<lparr>vertex_constraints = {}, edge_constraints = {}\<rparr>"

definition add_vertex_constraint :: "ConstraintsSet \<Rightarrow> VertexConstraint \<Rightarrow> ConstraintsSet" where
  "add_vertex_constraint cs c = cs\<lparr>vertex_constraints := insert c (vertex_constraints cs)\<rparr>"

definition add_edge_constraint :: "ConstraintsSet \<Rightarrow> EdgeConstraint \<Rightarrow> ConstraintsSet" where
  "add_edge_constraint cs c = cs\<lparr>edge_constraints := insert c (edge_constraints cs)\<rparr>"

definition is_constrained :: "ConstraintsSet \<Rightarrow> int \<Rightarrow> cell \<Rightarrow> int \<Rightarrow> bool" where
  "is_constrained cs a position time \<longleftrightarrow> (a, position, time) \<in> vertex_constraints cs"

definition is_edge_constrained :: "ConstraintsSet \<Rightarrow> int \<Rightarrow> cell \<Rightarrow> cell \<Rightarrow> int \<Rightarrow> bool" where
  "is_edge_constrained cs a from_pos to_pos time \<longleftrightarrow>
     new_EdgeConstraint a from_pos to_pos time \<in> edge_constraints cs"

section \<open>Low-level search: \<open>algorithms/astar.py\<close>\<close>

text \<open>
  \<open>SippNode\<close> objects are shared between the open list, the node dictionary and the
  parent links, and one branch of the search assigns to the fields of a node that is
  already stored. The model therefore keeps the nodes in a store, a list indexed by
  address: every constructed node is appended to it, and the open list, the dictionary
  and the parent field hold addresses. The fields \<open>interval_start\<close> and \<open>interval_end\<close>
  are never read and are left out.
\<close>

record SippNode =
  node_x :: int
  node_y :: int
  node_t :: int
  node_g :: int
  node_h :: int
  node_f :: int
  node_parent :: "nat option"

definition new_SippNode :: "int \<Rightarrow> int \<Rightarrow> int \<Rightarrow> int \<Rightarrow> int \<Rightarrow> nat option \<Rightarrow> SippNode" where
  "new_SippNode x y t g h parent =
     \<lparr>node_x = x, node_y = y, node_t = t, node_g = g, node_h = h, node_f = g + h,
      node_parent = parent\<rparr>"

text \<open>\<open>SippNode.__lt__\<close>, on addresses of the store \<open>ns\<close>.\<close>

definition node_lt :: "SippNode list \<Rightarrow> nat \<Rightarrow> nat \<Rightarrow> bool" where
  "node_lt ns a b \<longleftrightarrow> node_f (ns ! a) < node_f (ns ! b)"

text \<open>
  The state of one \<open>search\<close> call. \<open>reopened\<close> is not a variable of the source: it counts
  how often the branch at lines 114 to 118 (a duplicate in the open list with a strictly
  lower \<open>g\<close>) has run, and nothing reads it.
\<close>

record astar_state =
  open_list :: "nat list"
  closed_set :: "(int \<times> int \<times> int) set"
  node_dict :: "int \<times> int \<times> int \<Rightarrow> nat option"
  nodes :: "SippNode list"
  reopened :: nat

text \<open>The object \<open>SpaceTimeAStar(env, agent_id, constraints, config)\<close>; \<open>config\<close> is not read.\<close>

record SpaceTimeAStar =
  astar_env :: GridEnvironment
  astar_agent_id :: int
  astar_constraints :: ConstraintsSet

text \<open>Lines 63 to 69: the start node, pushed and entered in the dictionary.\<close>

definition astar_init :: "cell \<Rightarrow> cell \<Rightarrow> astar_state" where
  "astar_init start goal =
     (let start_node = new_SippNode (fst start) (snd start) 0 0
                         (get_manhattan_distance start goal) None;
          ns = [start_node]
      in \<lparr>open_list = heappush (node_lt ns) [] 0,
          closed_set = {},
          node_dict = [(node_x start_node, node_y start_node, node_t start_node) \<mapsto> 0],
          nodes = ns,
          reopened = 0\<rparr>)"

text \<open>
  Lines 89 to 121: the body of the loop over the neighbours of the node at address \<open>cur\<close>.
\<close>

definition process_neighbor ::
  "SpaceTimeAStar \<Rightarrow> cell \<Rightarrow> nat \<Rightarrow> astar_state \<Rightarrow> int \<times> int \<times> int \<Rightarrow> astar_state" where
  "process_neighbor self goal cur st nb =
     (case nb of (nx, ny, nt) \<Rightarrow>
      let current_node = nodes st ! cur in
      if is_constrained (astar_constraints self) (astar_agent_id self) (nx, ny) nt then st
      else if is_edge_constrained (astar_constraints self) (astar_agent_id self)
                (node_x current_node, node_y current_node) (nx, ny) (node_t current_node)
      then st
      else
        let g = node_g current_node + 1;
            h = get_manhattan_distance (nx, ny) goal;
            new_node = new_SippNode nx ny nt g h (Some cur);
            new_addr = length (nodes st);
            st1 = st\<lparr>nodes := nodes st @ [new_node]\<rparr>
        in if (nx, ny, nt) \<in> closed_set st1 then st1
           else (case node_dict st1 (nx, ny, nt) of
                   Some existing \<Rightarrow>
                     if node_g new_node < node_g (nodes st1 ! existing) then
                       (let existing_node = nodes st1 ! existing;
                            ns' = (nodes st1)[existing :=
                                    existing_node\<lparr>node_g := node_g new_node,
                                                  node_f := node_g new_node + node_h existing_node,
                                                  node_parent := node_parent new_node\<rparr>]
                        in st1\<lparr>nodes := ns',
                               open_list := heapify (node_lt ns') (open_list st1),
                               reopened := reopened st1 + 1\<rparr>)
                     else st1
                 | None \<Rightarrow>
                     st1\<lparr>open_list := heappush (node_lt (nodes st1)) (open_list st1) new_addr,
                         node_dict := (node_dict st1)((nx, ny, nt) \<mapsto> new_addr)\<rparr>))"

text \<open>
  One iteration of \<open>while open_list\<close> (lines 72 to 121), for a non-empty open list: either
  the popped node is at the goal (\<open>Found\<close>, with its address), or the loop goes on.
\<close>

datatype astar_step = Continue astar_state | Found astar_state nat

definition astar_body :: "SpaceTimeAStar \<Rightarrow> cell \<Rightarrow> int \<Rightarrow> astar_state \<Rightarrow> astar_step" where
  "astar_body self goal max_time st =
     (let (cur, rest) = heappop (node_lt (nodes st)) (open_list st);
          st1 = st\<lparr>open_list := rest\<rparr>;
          current_node = nodes st1 ! cur
      in if (node_x current_node, node_y current_node) = goal then Found st1 cur
         else if node_t current_node \<ge> max_time then Continue st1
         else
           (let st2 = st1\<lparr>closed_set := insert (node_x current_node, node_y current_node,
                                                  node_t current_node) (closed_set st1)\<rparr>;
                neighbors = get_neighbors (astar_env self)
                              (node_x current_node, node_y current_node, node_t current_node)
            in Continue (foldl (process_neighbor self goal cur) st2 neighbors)))"

text \<open>
  \<open>_reconstruct_path\<close>: follow the parent links from the goal node, then reverse. The
  loop \<open>while current is not None\<close> has no bound of its own, so the model takes fuel and
  returns \<open>None\<close> when it runs out. The list is never empty after the loop (the goal node
  is appended first), so the source's last branch, \<open>if not path\<close>, cannot run.
\<close>

fun reconstruct_loop :: "nat \<Rightarrow> SippNode list \<Rightarrow> nat option \<Rightarrow> path \<Rightarrow> path option" where
  "reconstruct_loop fuel ns None p = Some p"
| "reconstruct_loop 0 ns (Some a) p = None"
| "reconstruct_loop (Suc fuel) ns (Some a) p =
     reconstruct_loop fuel ns (node_parent (ns ! a)) (p @ [(node_x (ns ! a), node_y (ns ! a))])"

definition reconstruct_path :: "nat \<Rightarrow> SippNode list \<Rightarrow> nat \<Rightarrow> path option" where
  "reconstruct_path fuel ns goal_node = map_option rev (reconstruct_loop fuel ns (Some goal_node) [])"

text \<open>
  The loop \<open>while open_list\<close>, with fuel: \<open>None\<close> when the fuel runs out, otherwise the
  returned path (the empty list when the open list runs empty). The final state is
  returned with the path.
\<close>

fun astar_loop ::
  "nat \<Rightarrow> SpaceTimeAStar \<Rightarrow> cell \<Rightarrow> int \<Rightarrow> nat \<Rightarrow> astar_state \<Rightarrow> (astar_state \<times> path) option" where
  "astar_loop rfuel self goal max_time 0 st = None"
| "astar_loop rfuel self goal max_time (Suc fuel) st =
     (if open_list st = [] then Some (st, [])
      else (case astar_body self goal max_time st of
              Found st' a \<Rightarrow> map_option (Pair st') (reconstruct_path rfuel (nodes st') a)
            | Continue st' \<Rightarrow> astar_loop rfuel self goal max_time fuel st'))"

text \<open>\<open>SpaceTimeAStar.search(start, goal, max_time)\<close>.\<close>

definition astar_run ::
  "nat \<Rightarrow> SpaceTimeAStar \<Rightarrow> cell \<Rightarrow> cell \<Rightarrow> int \<Rightarrow> (astar_state \<times> path) option" where
  "astar_run fuel self start goal max_time =
     astar_loop fuel self goal max_time fuel (astar_init start goal)"

definition astar_search :: "nat \<Rightarrow> SpaceTimeAStar \<Rightarrow> cell \<Rightarrow> cell \<Rightarrow> int \<Rightarrow> path option" where
  "astar_search fuel self start goal max_time =
     map_option snd (astar_run fuel self start goal max_time)"

section \<open>High-level search: \<open>algorithms/cbs.py\<close>\<close>

text \<open>The two options of \<open>config.py\<close> that the searches read.\<close>

record Config =
  MAX_TIME_STEPS :: int
  CBS_MAX_ITERATIONS :: int

record Conflict =
  conflict_agent1 :: int
  conflict_agent2 :: int
  conflict_position :: cell
  conflict_time :: int
  conflict_type :: string

record CBSNode =
  cbs_constraints :: ConstraintsSet
  cbs_solutions :: solutions
  cbs_cost :: int
  cbs_conflicts :: "Conflict list"

text \<open>\<open>CBSNode.__lt__\<close>.\<close>

definition cbs_lt :: "CBSNode \<Rightarrow> CBSNode \<Rightarrow> bool" where
  "cbs_lt n1 n2 \<longleftrightarrow> cbs_cost n1 < cbs_cost n2"

text \<open>
  Python's \<open>xs[i]\<close> for an integer \<open>i\<close>: a negative index counts from the end, and an
  index out of range raises \<open>IndexError\<close>. The result is the position that is read.
\<close>

definition py_index :: "'a list \<Rightarrow> int \<Rightarrow> error + nat" where
  "py_index xs i =
     (if 0 \<le> i \<and> i < int (length xs) then Inr (nat i)
      else if - int (length xs) \<le> i \<and> i < 0 then Inr (nat (int (length xs) + i))
      else Inl IndexError)"

text \<open>
  \<open>_find_initial_solutions\<close>: the loop over \<open>self.agents\<close>. It returns the agents as the
  loop leaves them (an agent with a plan has its \<open>path\<close> and \<open>cost\<close> assigned) and the
  dictionary of plans; \<open>None\<close> when a low-level search runs out of fuel.
\<close>

fun find_initial_solutions ::
  "nat \<Rightarrow> GridEnvironment \<Rightarrow> Config \<Rightarrow> ConstraintsSet \<Rightarrow> Agent list \<Rightarrow> solutions
     \<Rightarrow> (Agent list \<times> solutions) option" where
  "find_initial_solutions fuel env config constraints [] sols = Some ([], sols)"
| "find_initial_solutions fuel env config constraints (agent # rest) sols =
     (case astar_search fuel
             \<lparr>astar_env = env, astar_agent_id = agent_id agent, astar_constraints = constraints\<rparr>
             (agent_start agent) (agent_goal agent) (MAX_TIME_STEPS config) of
        None \<Rightarrow> None
      | Some path \<Rightarrow>
          (let (agent', sols') =
                 (if path \<noteq> []
                  then (agent\<lparr>agent_path := path, agent_cost := int (length path) - 1\<rparr>,
                        dict_set sols (agent_id agent) path)
                  else (agent, sols))
           in (case find_initial_solutions fuel env config constraints rest sols' of
                 None \<Rightarrow> None
               | Some (rest', sols'') \<Rightarrow> Some (agent' # rest', sols''))))"

text \<open>
  \<open>_replan_agent\<close>: \<open>self.agents[agent_id]\<close> is read by position, the agent is planned
  under the node's constraints, and a non-empty plan is stored in the node and in the
  agent. An empty plan leaves both as they are.
\<close>

definition replan_agent ::
  "nat \<Rightarrow> GridEnvironment \<Rightarrow> Config \<Rightarrow> Agent list \<Rightarrow> int \<Rightarrow> CBSNode
     \<Rightarrow> (error + Agent list \<times> CBSNode) option" where
  "replan_agent fuel env config agents a node =
     (case py_index agents a of
        Inl e \<Rightarrow> Some (Inl e)
      | Inr i \<Rightarrow>
          (let agent = agents ! i
           in (case astar_search fuel
                      \<lparr>astar_env = env, astar_agent_id = a,
                       astar_constraints = cbs_constraints node\<rparr>
                      (agent_start agent) (agent_goal agent) (MAX_TIME_STEPS config) of
                 None \<Rightarrow> None
               | Some new_path \<Rightarrow>
                   if new_path \<noteq> []
                   then Some (Inr (agents[i := agent\<lparr>agent_path := new_path,
                                                     agent_cost := int (length new_path) - 1\<rparr>],
                                   node\<lparr>cbs_solutions := dict_set (cbs_solutions node) a new_path\<rparr>))
                   else Some (Inr (agents, node)))))"

definition calculate_solution_cost :: "solutions \<Rightarrow> int" where
  "calculate_solution_cost sols = foldl (\<lambda>total (a, p). total + (int (length p) - 1)) 0 sols"

text \<open>
  \<open>_find_conflicts\<close>, lines 165 to 174: every path is extended to the greatest length by
  repeating its last cell. \<open>extended_path[-1]\<close> raises \<open>IndexError\<close> on an empty path.
\<close>

definition extend_path :: "nat \<Rightarrow> path \<Rightarrow> error + path" where
  "extend_path max_length p =
     (if length p < max_length
      then (case p of [] \<Rightarrow> Inl IndexError
            | _ # _ \<Rightarrow> Inr (p @ replicate (max_length - length p) (last p)))
      else Inr p)"

fun extend_paths :: "nat \<Rightarrow> solutions \<Rightarrow> error + solutions" where
  "extend_paths max_length [] = Inr []"
| "extend_paths max_length ((a, p) # rest) =
     (case extend_path max_length p of
        Inl e \<Rightarrow> Inl e
      | Inr ep \<Rightarrow> (case extend_paths max_length rest of
                     Inl e \<Rightarrow> Inl e
                   | Inr r \<Rightarrow> Inr ((a, ep) # r)))"

text \<open>Lines 178 to 183: the positions of all agents at time \<open>t\<close>, in dictionary order.\<close>

definition positions_at :: "nat \<Rightarrow> solutions \<Rightarrow> (int \<times> cell) list" where
  "positions_at t ext = map (\<lambda>(a, p). (a, p ! t)) (filter (\<lambda>(a, p). t < length p) ext)"

text \<open>
  The pairs visited by \<open>for i, x in enumerate(items): for y in items[i + 1:]\<close>, in the
  order of the visit.
\<close>

fun pairs_after :: "'a list \<Rightarrow> ('a \<times> 'a) list" where
  "pairs_after [] = []"
| "pairs_after (x # xs) = map (Pair x) xs @ pairs_after xs"

definition vertex_conflicts_at :: "nat \<Rightarrow> (int \<times> cell) list \<Rightarrow> Conflict list" where
  "vertex_conflicts_at t positions =
     map (\<lambda>((agent1, pos1), (agent2, pos2)).
            \<lparr>conflict_agent1 = agent1, conflict_agent2 = agent2, conflict_position = pos1,
             conflict_time = int t, conflict_type = ''vertex''\<rparr>)
         (filter (\<lambda>((agent1, pos1), (agent2, pos2)). pos1 = pos2) (pairs_after positions))"

text \<open>
  \<open>extended_paths[agent]\<close>: the agent is a key of the dictionary, so the lookup never
  fails in the source.
\<close>

definition dict_get :: "solutions \<Rightarrow> int \<Rightarrow> path" where
  "dict_get d a = (case map_of d a of Some p \<Rightarrow> p | None \<Rightarrow> [])"

definition prev_pos :: "solutions \<Rightarrow> int \<Rightarrow> nat \<Rightarrow> cell \<Rightarrow> cell" where
  "prev_pos ext a t pos = (if t - 1 < length (dict_get ext a) then dict_get ext a ! (t - 1) else pos)"

definition edge_conflicts_at :: "solutions \<Rightarrow> nat \<Rightarrow> (int \<times> cell) list \<Rightarrow> Conflict list" where
  "edge_conflicts_at ext t positions =
     (if t > 0 then
        map (\<lambda>((agent1, pos1), (agent2, pos2)).
               \<lparr>conflict_agent1 = agent1, conflict_agent2 = agent2, conflict_position = pos1,
                conflict_time = int t, conflict_type = ''edge''\<rparr>)
            (filter (\<lambda>((agent1, pos1), (agent2, pos2)).
                       prev_pos ext agent1 t pos1 = pos2 \<and> prev_pos ext agent2 t pos2 = pos1)
                    (pairs_after positions))
      else [])"

definition conflicts_at :: "solutions \<Rightarrow> nat \<Rightarrow> Conflict list" where
  "conflicts_at ext t =
     (let positions = positions_at t ext
      in vertex_conflicts_at t positions @ edge_conflicts_at ext t positions)"

text \<open>
  \<open>_find_conflicts\<close>: \<open>max\<close> raises \<open>ValueError\<close> when \<open>solutions\<close> is empty.
\<close>

definition find_conflicts :: "solutions \<Rightarrow> error + Conflict list" where
  "find_conflicts sols =
     (case py_max (map (\<lambda>(a, p). length p) sols) of
        Inl e \<Rightarrow> Inl e
      | Inr max_length \<Rightarrow>
          (case extend_paths max_length sols of
             Inl e \<Rightarrow> Inl e
           | Inr ext \<Rightarrow> Inr (concat (map (conflicts_at ext) [0 ..< max_length]))))"

text \<open>
  Lines 85 to 97: the constraint set of a child. Both branches add a vertex constraint
  at the conflict's position and time.
\<close>

definition child_constraints :: "ConstraintsSet \<Rightarrow> Conflict \<Rightarrow> int \<Rightarrow> ConstraintsSet" where
  "child_constraints cs conflict a =
     (if conflict_type conflict = ''vertex''
      then add_vertex_constraint cs (a, conflict_position conflict, conflict_time conflict)
      else if conflict_type conflict = ''edge''
      then add_vertex_constraint cs (a, conflict_position conflict, conflict_time conflict)
      else cs)"

text \<open>
  How the \<open>while\<close> loop of \<open>search\<close> is left: by one of the two \<open>return\<close> statements
  inside it (lines 77 and 116, both behind a test that the node has no conflicts), by
  its condition becoming false (with the open list at that moment), or by an exception.
\<close>

datatype loop_exit =
    Conflict_free solutions
  | Loop_ended "CBSNode list"
  | Loop_raised error

text \<open>
  Lines 83 to 119: the loop \<open>for agent_id in [conflict.agent1, conflict.agent2]\<close>. The
  result is the agents, and either the way the search is left or the open list after
  the loop.
\<close>

fun expand_children ::
  "nat \<Rightarrow> GridEnvironment \<Rightarrow> Config \<Rightarrow> CBSNode \<Rightarrow> Conflict \<Rightarrow> Agent list \<Rightarrow> CBSNode list
     \<Rightarrow> int list \<Rightarrow> (Agent list \<times> (loop_exit + CBSNode list)) option" where
  "expand_children fuel env config current_node conflict agents ol [] = Some (agents, Inr ol)"
| "expand_children fuel env config current_node conflict agents ol (a # rest) =
     (let new_constraints = child_constraints (cbs_constraints current_node) conflict a;
          new_node = \<lparr>cbs_constraints = new_constraints,
                      cbs_solutions = cbs_solutions current_node,
                      cbs_cost = 0, cbs_conflicts = []\<rparr>
      in (case replan_agent fuel env config agents a new_node of
            None \<Rightarrow> None
          | Some (Inl e) \<Rightarrow> Some (agents, Inl (Loop_raised e))
          | Some (Inr (agents', node1)) \<Rightarrow>
              (let node2 = node1\<lparr>cbs_cost := calculate_solution_cost (cbs_solutions node1)\<rparr>
               in (case find_conflicts (cbs_solutions node2) of
                     Inl e \<Rightarrow> Some (agents', Inl (Loop_raised e))
                   | Inr confs \<Rightarrow>
                       if confs = []
                       then Some (agents', Inl (Conflict_free (cbs_solutions node2)))
                       else expand_children fuel env config current_node conflict agents'
                              (heappush cbs_lt ol (node2\<lparr>cbs_conflicts := confs\<rparr>)) rest))))"

text \<open>Lines 69 to 119: the \<open>while\<close> loop.\<close>

function cbs_loop ::
  "nat \<Rightarrow> GridEnvironment \<Rightarrow> Config \<Rightarrow> Agent list \<Rightarrow> CBSNode list \<Rightarrow> int
     \<Rightarrow> (Agent list \<times> loop_exit) option" where
  "cbs_loop fuel env config agents ol iteration =
     (if ol \<noteq> [] \<and> iteration < CBS_MAX_ITERATIONS config then
        (case heappop cbs_lt ol of (current_node, ol1) \<Rightarrow>
           (case cbs_conflicts current_node of
              [] \<Rightarrow> Some (agents, Conflict_free (cbs_solutions current_node))
            | conflict # _ \<Rightarrow>
                (case expand_children fuel env config current_node conflict agents ol1
                        [conflict_agent1 conflict, conflict_agent2 conflict] of
                   None \<Rightarrow> None
                 | Some (agents', Inl ex) \<Rightarrow> Some (agents', ex)
                 | Some (agents', Inr ol2) \<Rightarrow>
                     cbs_loop fuel env config agents' ol2 (iteration + 1))))
      else Some (agents, Loop_ended ol))"
  by pat_completeness auto
termination
  by (relation "measure (\<lambda>(fuel, env, config, agents, ol, iteration).
                           nat (CBS_MAX_ITERATIONS config - iteration))") auto

text \<open>
  \<open>CBS.search\<close> up to the point where the \<open>while\<close> loop is left. The root's plans are
  found under the empty constraint set; the conflict scan of the root can raise.
\<close>

definition search_exit ::
  "nat \<Rightarrow> GridEnvironment \<Rightarrow> Config \<Rightarrow> Agent list \<Rightarrow> (Agent list \<times> loop_exit) option" where
  "search_exit fuel env config agents =
     (case find_initial_solutions fuel env config new_ConstraintsSet agents [] of
        None \<Rightarrow> None
      | Some (agents1, sols) \<Rightarrow>
          (case find_conflicts sols of
             Inl e \<Rightarrow> Some (agents1, Loop_raised e)
           | Inr confs \<Rightarrow>
               (let root = \<lparr>cbs_constraints = new_ConstraintsSet, cbs_solutions = sols,
                            cbs_cost = calculate_solution_cost sols, cbs_conflicts = confs\<rparr>
                in cbs_loop fuel env config agents1 (heappush cbs_lt [] root) 0)))"

text \<open>
  \<open>CBS.search\<close>: the agents as the call leaves them, and the returned dictionary or
  the exception. Lines 121 to 126 return the plans of the cheapest open node when the
  loop has ended with a non-empty open list, and the empty dictionary otherwise.
\<close>

definition search ::
  "nat \<Rightarrow> GridEnvironment \<Rightarrow> Config \<Rightarrow> Agent list \<Rightarrow> (Agent list \<times> (error + solutions)) option" where
  "search fuel env config agents =
     (case search_exit fuel env config agents of
        None \<Rightarrow> None
      | Some (agents', Conflict_free sols) \<Rightarrow> Some (agents', Inr sols)
      | Some (agents', Loop_ended ol) \<Rightarrow>
          (if ol \<noteq> [] then Some (agents', Inr (cbs_solutions (fst (heappop cbs_lt ol))))
           else Some (agents', Inr []))
      | Some (agents', Loop_raised e) \<Rightarrow> Some (agents', Inl e))"

text \<open>
  What identifies an agent as an input of the search: its id, its start and its goal
  (the fields that \<open>search\<close> reads but never assigns).
\<close>

definition agent_identity :: "Agent \<Rightarrow> int \<times> cell \<times> cell" where
  "agent_identity a = (agent_id a, agent_start a, agent_goal a)"

section \<open>Low-level search: reachable states\<close>

text \<open>The state \<open>(x, y, t)\<close> of a node: what \<open>SippNode.__eq__\<close> and \<open>__hash__\<close> read.\<close>

definition node_key :: "SippNode \<Rightarrow> int \<times> int \<times> int" where
  "node_key n = (node_x n, node_y n, node_t n)"

text \<open>
  The states of one \<open>search\<close> call at the head of the \<open>while\<close> loop and at its
  \<open>return\<close>: the initial state, and every state that one iteration produces from a
  reachable state with a non-empty open list.
\<close>

inductive astar_reach :: "SpaceTimeAStar \<Rightarrow> cell \<Rightarrow> cell \<Rightarrow> int \<Rightarrow> astar_state \<Rightarrow> bool"
  for self :: SpaceTimeAStar and start :: cell and goal :: cell and max_time :: int where
  reach_init: "astar_reach self start goal max_time (astar_init start goal)"
| reach_continue:
    "astar_reach self start goal max_time st \<Longrightarrow> open_list st \<noteq> [] \<Longrightarrow>
     astar_body self goal max_time st = Continue st' \<Longrightarrow>
     astar_reach self start goal max_time st'"
| reach_found:
    "astar_reach self start goal max_time st \<Longrightarrow> open_list st \<noteq> [] \<Longrightarrow>
     astar_body self goal max_time st = Found st' a \<Longrightarrow>
     astar_reach self start goal max_time st'"

code_pred astar_reach .

text \<open>
  The invariant of the loop: the open list and the dictionary hold addresses of the
  store, the dictionary maps a state to a node of that state, every node has \<open>g = t\<close>,
  and the branch for a cheaper duplicate has not run.
\<close>

definition astar_inv :: "astar_state \<Rightarrow> bool" where
  "astar_inv st \<longleftrightarrow>
     (\<forall>a \<in> set (open_list st). a < length (nodes st))
     \<and> (\<forall>n \<in> set (nodes st). node_g n = node_t n)
     \<and> (\<forall>k a. node_dict st k = Some a \<longrightarrow> a < length (nodes st) \<and> node_key (nodes st ! a) = k)
     \<and> reopened st = 0"

section \<open>Validity of a joint plan\<close>

text \<open>
  The position of an agent at time \<open>t\<close> when its plan is padded by repeating the final
  cell, as lines 169 to 174 of \<open>_find_conflicts\<close> (and \<open>Metrics.check_collisions\<close>) pad it.
\<close>

definition pos_at :: "path \<Rightarrow> nat \<Rightarrow> cell" where
  "pos_at p t = (if t < length p then p ! t else last p)"

text \<open>The length to which the plans are padded: the greatest length of a plan.\<close>

definition plan_length :: "solutions \<Rightarrow> nat" where
  "plan_length sols = (case py_max (map (\<lambda>(a, p). length p) sols) of Inr m \<Rightarrow> m | Inl e \<Rightarrow> 0)"

text \<open>
  A joint plan without collisions: at no time of the padded plan are two distinct agents
  in the same cell, and no two distinct agents swap their cells between two consecutive
  times.
\<close>

definition valid_joint_plan :: "solutions \<Rightarrow> bool" where
  "valid_joint_plan sols \<longleftrightarrow>
     (\<forall>(a, p) \<in> set sols. \<forall>(b, q) \<in> set sols. a \<noteq> b \<longrightarrow>
        (\<forall>t \<in> {..< plan_length sols}.
           pos_at p t \<noteq> pos_at q t
           \<and> (0 < t \<longrightarrow> \<not> (pos_at p (t - 1) = pos_at q t \<and> pos_at q (t - 1) = pos_at p t))))"

text \<open>
  What every node of the high-level open list satisfies: the keys of its plans are
  distinct (it is a dictionary), and its list of conflicts is the result of the conflict
  scan of its plans.
\<close>

definition node_ok :: "CBSNode \<Rightarrow> bool" where
  "node_ok n \<longleftrightarrow>
     distinct (map fst (cbs_solutions n))
     \<and> find_conflicts (cbs_solutions n) = Inr (cbs_conflicts n)"

section \<open>Order of the conflict scan\<close>

text \<open>Vertex conflicts come before edge conflicts.\<close>

definition type_order :: "Conflict \<Rightarrow> nat" where
  "type_order c = (if conflict_type c = ''vertex'' then 0 else 1)"

text \<open>The lexicographic order by \<open>(t, type_order, a, b)\<close>.\<close>

definition conflict_before :: "Conflict \<Rightarrow> Conflict \<Rightarrow> bool" where
  "conflict_before c d \<longleftrightarrow>
     conflict_time c < conflict_time d
     \<or> (conflict_time c = conflict_time d
        \<and> (type_order c < type_order d
           \<or> (type_order c = type_order d
              \<and> (conflict_agent1 c < conflict_agent1 d
                 \<or> (conflict_agent1 c = conflict_agent1 d
                    \<and> conflict_agent2 c \<le> conflict_agent2 d)))))"

text \<open>
  The same order with the order of the agents' ids as a parameter: the scan visits the
  agents in dictionary order.
\<close>

definition scan_before :: "(int \<Rightarrow> int \<Rightarrow> bool) \<Rightarrow> Conflict \<Rightarrow> Conflict \<Rightarrow> bool" where
  "scan_before K c d \<longleftrightarrow>
     conflict_time c < conflict_time d
     \<or> (conflict_time c = conflict_time d
        \<and> (type_order c < type_order d
           \<or> (type_order c = type_order d
              \<and> (K (conflict_agent1 c) (conflict_agent1 d)
                 \<or> (conflict_agent1 c = conflict_agent1 d
                    \<and> K (conflict_agent2 c) (conflict_agent2 d))))))"

section \<open>Low-level search: the bound of the search\<close>

text \<open>
  The states that a \<open>search\<close> call can enter in its dictionary: the start state, and the
  cells of the grid at the times 1 to \<open>max_time\<close>.
\<close>

definition state_space :: "GridEnvironment \<Rightarrow> cell \<Rightarrow> int \<Rightarrow> (int \<times> int \<times> int) set" where
  "state_space env start max_time =
     insert (fst start, snd start, 0)
       ({0 ..< env_height env} \<times> {0 ..< env_width env} \<times> {1 .. max_time})"

text \<open>
  What decreases with every iteration of the loop: the states not yet in the dictionary,
  plus the length of the open list.
\<close>

definition astar_measure :: "GridEnvironment \<Rightarrow> cell \<Rightarrow> int \<Rightarrow> astar_state \<Rightarrow> nat" where
  "astar_measure env start max_time st =
     card (state_space env start max_time - dom (node_dict st)) + length (open_list st)"

text \<open>
  The loop invariant with what termination needs: times are not negative, the dictionary
  stays within the states above, and a parent is older than its child.
\<close>

definition astar_term_inv :: "GridEnvironment \<Rightarrow> cell \<Rightarrow> int \<Rightarrow> astar_state \<Rightarrow> bool" where
  "astar_term_inv env start max_time st \<longleftrightarrow>
     astar_inv st
     \<and> (\<forall>n \<in> set (nodes st). 0 \<le> node_t n)
     \<and> dom (node_dict st) \<subseteq> state_space env start max_time
     \<and> (\<forall>a < length (nodes st). \<forall>b. node_parent (nodes st ! a) = Some b \<longrightarrow> b < a)"

section \<open>Assignments to the agents\<close>

text \<open>
  What \<open>_find_initial_solutions\<close> (lines 136 to 139) and \<open>_replan_agent\<close> (lines 149 to
  152) do to an agent for which the low-level search has returned the plan \<open>p\<close>: a
  non-empty plan is assigned to \<open>path\<close> and \<open>len(p) - 1\<close> to \<open>cost\<close>; with an empty plan
  the agent stays as it is.
\<close>

definition with_plan :: "Agent \<Rightarrow> path \<Rightarrow> Agent" where
  "with_plan agent p =
     (if p \<noteq> [] then agent\<lparr>agent_path := p, agent_cost := int (length p) - 1\<rparr> else agent)"

text \<open>
  A sequence of calls \<open>_replan_agent(agent_id, node)\<close>, each on the list of agents that
  the call before it has left. A call that raises, or a low-level search that does not
  return, ends the sequence without a result.
\<close>

fun replan_calls ::
  "nat \<Rightarrow> GridEnvironment \<Rightarrow> Config \<Rightarrow> (int \<times> CBSNode) list \<Rightarrow> Agent list \<Rightarrow> Agent list option" where
  "replan_calls fuel env config [] agents = Some agents"
| "replan_calls fuel env config ((a, node) # calls) agents =
     (case replan_agent fuel env config agents a node of
        None \<Rightarrow> None
      | Some (Inl e) \<Rightarrow> None
      | Some (Inr (agents', node')) \<Rightarrow> replan_calls fuel env config calls agents')"

section \<open>States of the high-level loop\<close>

text \<open>
  The states \<open>(self.agents, open_list, iteration)\<close> in which \<open>search\<close> tests the condition
  of its \<open>while\<close> loop (line 69): the state that lines 58 to 67 set up, and the state
  after every iteration that splits on the first conflict of the popped node and neither
  returns nor raises.
\<close>

inductive cbs_reach ::
  "nat \<Rightarrow> GridEnvironment \<Rightarrow> Config \<Rightarrow> Agent list \<Rightarrow> Agent list \<times> CBSNode list \<times> int \<Rightarrow> bool"
  for fuel :: nat and env :: GridEnvironment and config :: Config and agents0 :: "Agent list" where
  cbs_root:
    "find_initial_solutions fuel env config new_ConstraintsSet agents0 [] = Some (agents1, sols) \<Longrightarrow>
     find_conflicts sols = Inr confs \<Longrightarrow>
     cbs_reach fuel env config agents0
       (agents1,
        heappush cbs_lt []
          \<lparr>cbs_constraints = new_ConstraintsSet, cbs_solutions = sols,
           cbs_cost = calculate_solution_cost sols, cbs_conflicts = confs\<rparr>,
        0)"
| cbs_step:
    "cbs_reach fuel env config agents0 (agents, ol, iteration) \<Longrightarrow>
     ol \<noteq> [] \<Longrightarrow> iteration < CBS_MAX_ITERATIONS config \<Longrightarrow>
     heappop cbs_lt ol = (current_node, ol1) \<Longrightarrow>
     cbs_conflicts current_node = conflict # cs \<Longrightarrow>
     expand_children fuel env config current_node conflict agents ol1
       [conflict_agent1 conflict, conflict_agent2 conflict] = Some (agents', Inr ol2) \<Longrightarrow>
     cbs_reach fuel env config agents0 (agents', ol2, iteration + 1)"

code_pred cbs_reach .

section \<open>Example instances\<close>

text \<open>A free corridor of one row and two columns.\<close>

definition corridor2 :: GridEnvironment where
  "corridor2 = \<lparr>env_grid = (\<lambda>i j. 0), env_height = 1, env_width = 2\<rparr>"

text \<open>One row of three cells whose middle cell is blocked.\<close>

definition blocked3 :: GridEnvironment where
  "blocked3 = \<lparr>env_grid = (\<lambda>i j. if j = 1 then 1 else 0), env_height = 1, env_width = 3\<rparr>"

text \<open>A free square of two rows and two columns.\<close>

definition square2 :: GridEnvironment where
  "square2 = \<lparr>env_grid = (\<lambda>i j. 0), env_height = 2, env_width = 2\<rparr>"

section \<open>Makespan: results\<close>

text \<open>
  C8. The claim is that both makespan computations return the maximum of
  \<open>len(plan) - 1\<close>. \<open>Metrics.calculate_makespan\<close> does; \<open>AgentManager.get_makespan\<close>
  counts cells instead of steps. For the single agent with the two-cell path
  \<open>[(0,0), (0,1)]\<close> the first returns 1 and the second returns 2.
\<close>

theorem get_makespan_off_by_one:
  "calculate_makespan
     (get_agent_paths [(new_Agent 0 (0,0) (0,1))\<lparr>agent_path := [(0,0), (0,1)], agent_cost := 1\<rparr>]) = 1
   \<and> get_makespan [(new_Agent 0 (0,0) (0,1))\<lparr>agent_path := [(0,0), (0,1)], agent_cost := 1\<rparr>]
       = Inr 2"
  by (simp add: calculate_makespan_def get_agent_paths_def get_makespan_def new_Agent_def)

section \<open>Facts about the heap operations\<close>

declare siftdown_loop.simps [simp del]
declare siftup_loop.simps [simp del]

lemma siftdown_loop_length [simp]:
  "length (siftdown_loop lt heap newitem startpos pos) = length heap"
proof (induction lt heap newitem startpos pos rule: siftdown_loop.induct)
  case (1 lt heap newitem startpos pos)
  then show ?case
    by (subst siftdown_loop.simps) (simp add: Let_def)
qed

lemma siftdown_loop_set:
  "pos < length heap \<Longrightarrow>
   set (siftdown_loop lt heap newitem startpos pos) \<subseteq> insert newitem (set heap)"
proof (induction lt heap newitem startpos pos rule: siftdown_loop.induct)
  case (1 lt heap newitem startpos pos)
  show ?case
  proof (cases "pos > startpos \<and> lt newitem (heap ! ((pos - 1) div 2))")
    case True
    then have pp: "(pos - 1) div 2 < length heap" using "1.prems" by linarith
    have "set (siftdown_loop lt (heap[pos := heap ! ((pos - 1) div 2)]) newitem startpos ((pos - 1) div 2))
          \<subseteq> insert newitem (set (heap[pos := heap ! ((pos - 1) div 2)]))"
      using "1.IH"[OF _ refl refl] True pp by simp
    also have "\<dots> \<subseteq> insert newitem (set heap)"
      using set_update_subset_insert[of heap pos "heap ! ((pos - 1) div 2)"] pp nth_mem[OF pp]
      by auto
    finally show ?thesis using True
      by (subst siftdown_loop.simps) (simp add: Let_def)
  next
    case False
    then show ?thesis
      using set_update_subset_insert[of heap pos newitem]
      by (subst siftdown_loop.simps) (auto simp: Let_def)
  qed
qed

lemma siftup_loop_length [simp]:
  "length (fst (siftup_loop lt heap endpos pos childpos)) = length heap"
proof (induction lt heap endpos pos childpos rule: siftup_loop.induct)
  case (1 lt heap endpos pos childpos)
  then show ?case
    by (subst siftup_loop.simps) (simp add: Let_def)
qed

lemma siftup_loop_set:
  "endpos \<le> length heap \<Longrightarrow>
   set (fst (siftup_loop lt heap endpos pos childpos)) \<subseteq> set heap"
proof (induction lt heap endpos pos childpos rule: siftup_loop.induct)
  case (1 lt heap endpos pos childpos)
  show ?case
  proof (cases "childpos < endpos")
    case True
    define c where "c = (if childpos + 1 < endpos \<and> \<not> lt (heap ! childpos) (heap ! (childpos + 1))
                          then childpos + 1 else childpos)"
    have c: "c < length heap" using True "1.prems" by (auto simp: c_def)
    have eq: "siftup_loop lt heap endpos pos childpos
              = siftup_loop lt (heap[pos := heap ! c]) endpos c (2 * c + 1)"
      using True by (subst siftup_loop.simps) (simp add: Let_def c_def)
    have "set (fst (siftup_loop lt (heap[pos := heap ! c]) endpos c (2 * c + 1)))
            \<subseteq> set (heap[pos := heap ! c])"
      using "1.IH"[OF True refl c_def] "1.prems" by simp
    also have "\<dots> \<subseteq> set heap"
      using set_update_subset_insert[of heap pos "heap ! c"] nth_mem[OF c] by auto
    finally show ?thesis unfolding eq .
  next
    case False
    then show ?thesis by (subst siftup_loop.simps) simp
  qed
qed

lemma siftup_loop_pos:
  "pos < length heap \<Longrightarrow> endpos \<le> length heap \<Longrightarrow>
   snd (siftup_loop lt heap endpos pos childpos) < length heap"
proof (induction lt heap endpos pos childpos rule: siftup_loop.induct)
  case (1 lt heap endpos pos childpos)
  show ?case
  proof (cases "childpos < endpos")
    case True
    define c where "c = (if childpos + 1 < endpos \<and> \<not> lt (heap ! childpos) (heap ! (childpos + 1))
                          then childpos + 1 else childpos)"
    have c: "c < length heap" using True "1.prems" by (auto simp: c_def)
    have eq: "siftup_loop lt heap endpos pos childpos
              = siftup_loop lt (heap[pos := heap ! c]) endpos c (2 * c + 1)"
      using True by (subst siftup_loop.simps) (simp add: Let_def c_def)
    have "snd (siftup_loop lt (heap[pos := heap ! c]) endpos c (2 * c + 1)) < length heap"
      using "1.IH"[OF True refl c_def] "1.prems" c by simp
    then show ?thesis unfolding eq .
  next
    case False
    then show ?thesis using "1.prems" by (subst siftup_loop.simps) simp
  qed
qed

lemma siftdown_set:
  "pos < length heap \<Longrightarrow> set (siftdown lt heap startpos pos) \<subseteq> set heap"
  unfolding siftdown_def using siftdown_loop_set[of pos heap lt "heap ! pos" startpos] by auto

lemma siftup_set:
  "pos < length heap \<Longrightarrow> set (siftup lt heap pos) \<subseteq> set heap"
proof -
  assume p: "pos < length heap"
  obtain h' p' where sl: "siftup_loop lt heap (length heap) pos (2 * pos + 1) = (h', p')"
    by (cases "siftup_loop lt heap (length heap) pos (2 * pos + 1)")
  have l: "length h' = length heap"
    using siftup_loop_length[of lt heap "length heap" pos "2 * pos + 1", unfolded sl] by simp
  have s: "set h' \<subseteq> set heap"
    using siftup_loop_set[of "length heap" heap lt pos "2 * pos + 1", unfolded sl] by simp
  have q: "p' < length heap"
    using siftup_loop_pos[OF p, of "length heap" lt "2 * pos + 1", unfolded sl] by simp
  have "set (siftdown lt (h'[p' := heap ! pos]) pos p') \<subseteq> set (h'[p' := heap ! pos])"
    using siftdown_set[of p' "h'[p' := heap ! pos]" lt pos] q l by simp
  also have "\<dots> \<subseteq> set heap"
    using set_update_subset_insert[of h' p' "heap ! pos"] s nth_mem[OF p] by auto
  finally show ?thesis using sl by (simp add: siftup_def)
qed

lemma heappush_set: "set (heappush lt heap item) \<subseteq> insert item (set heap)"
  unfolding heappush_def using siftdown_set[of "length heap" "heap @ [item]" lt 0] by auto

lemma heappop_fst: "heap \<noteq> [] \<Longrightarrow> fst (heappop lt heap) \<in> set heap"
  by (cases heap rule: rev_cases) (auto simp: heappop_def Let_def nth_append neq_Nil_conv)

lemma heappop_snd: "heap \<noteq> [] \<Longrightarrow> set (snd (heappop lt heap)) \<subseteq> set heap"
proof (cases heap rule: rev_cases)
  case Nil
  assume "heap \<noteq> []"
  with Nil show ?thesis by simp
next
  case (snoc ys y)
  show ?thesis
  proof (cases "ys = []")
    case True
    then show ?thesis using snoc by (simp add: heappop_def)
  next
    case False
    then have "set (siftup lt (ys[0 := y]) 0) \<subseteq> set (ys[0 := y])"
      using siftup_set[of 0 "ys[0 := y]" lt] by simp
    also have "\<dots> \<subseteq> insert y (set ys)" by (rule set_update_subset_insert)
    finally show ?thesis using snoc False by (simp add: heappop_def)
  qed
qed

declare cbs_loop.simps [simp del]

lemma heappush_Nil [simp]: "heappush lt [] x = [x]"
  by (simp add: heappush_def siftdown_def siftdown_loop.simps)

lemma heappop_single [simp]: "heappop lt [x] = (x, [])"
  by (simp add: heappop_def)

section \<open>High-level search: results\<close>

lemma find_initial_all_infeasible:
  "\<forall>a\<in>set agents. astar_search fuel
       \<lparr>astar_env = env, astar_agent_id = agent_id a, astar_constraints = cs\<rparr>
       (agent_start a) (agent_goal a) (MAX_TIME_STEPS config) = Some []
   \<Longrightarrow> find_initial_solutions fuel env config cs agents sols = Some (agents, sols)"
  by (induction agents arbitrary: sols) simp_all

text \<open>
  C10. When the low-level search returns the empty list for every agent under the empty
  constraint set, the root's dictionary of plans is empty, the conflict scan takes
  \<open>max\<close> of an empty sequence, and \<open>search\<close> raises \<open>ValueError\<close>; the agents are
  left as they were. (Without agents at all, the same happens.)
\<close>

theorem search_raises_without_root_plan:
  assumes "\<forall>a\<in>set agents. astar_search fuel
       \<lparr>astar_env = env, astar_agent_id = agent_id a, astar_constraints = new_ConstraintsSet\<rparr>
       (agent_start a) (agent_goal a) (MAX_TIME_STEPS config) = Some []"
  shows "search fuel env config agents = Some (agents, Inl ValueError)"
  using find_initial_all_infeasible[OF assms, of "[]"]
  by (simp add: search_def search_exit_def find_conflicts_def)

lemma blocked_agent_infeasible:
  "astar_search 10 \<lparr>astar_env = blocked3, astar_agent_id = 0, astar_constraints = new_ConstraintsSet\<rparr>
       (0,0) (0,2) 2 = Some []"
  by code_simp

theorem search_raises_without_root_plan_witness:
  "astar_search 10
     \<lparr>astar_env = blocked3, astar_agent_id = 0, astar_constraints = new_ConstraintsSet\<rparr>
     (0,0) (0,2) 2 = Some []
   \<and> search 10 blocked3 \<lparr>MAX_TIME_STEPS = 2, CBS_MAX_ITERATIONS = 1000\<rparr> [new_Agent 0 (0,0) (0,2)]
       = Some ([new_Agent 0 (0,0) (0,2)], Inl ValueError)"
proof -
  have h: "\<forall>a\<in>set [new_Agent 0 (0,0) (0,2)]. astar_search 10
       \<lparr>astar_env = blocked3, astar_agent_id = agent_id a, astar_constraints = new_ConstraintsSet\<rparr>
       (agent_start a) (agent_goal a) (MAX_TIME_STEPS \<lparr>MAX_TIME_STEPS = 2, CBS_MAX_ITERATIONS = 1000\<rparr>) = Some []"
    using blocked_agent_infeasible by (simp add: new_Agent_def)
  show ?thesis using blocked_agent_infeasible search_raises_without_root_plan[OF h] by simp
qed

text \<open>
  C2. The claim is that a split on an edge conflict adds one edge constraint per child
  and no vertex constraint. For the two agents that swap the cells of the corridor, the
  conflict scan reports an edge conflict, and each child gets a vertex constraint at the
  conflict's position and time; the set of edge constraints stays empty.
\<close>

theorem edge_conflict_split_adds_vertex_constraints:
  "find_conflicts [(0, [(0,0), (0,1)]), (1, [(0,1), (0,0)])]
     = Inr [\<lparr>conflict_agent1 = 0, conflict_agent2 = 1, conflict_position = (0,1),
             conflict_time = 1, conflict_type = ''edge''\<rparr>]
   \<and> child_constraints new_ConstraintsSet
        \<lparr>conflict_agent1 = 0, conflict_agent2 = 1, conflict_position = (0,1),
         conflict_time = 1, conflict_type = ''edge''\<rparr> 0
      = \<lparr>vertex_constraints = {(0, (0,1), 1)}, edge_constraints = {}\<rparr>
   \<and> child_constraints new_ConstraintsSet
        \<lparr>conflict_agent1 = 0, conflict_agent2 = 1, conflict_position = (0,1),
         conflict_time = 1, conflict_type = ''edge''\<rparr> 1
      = \<lparr>vertex_constraints = {(1, (0,1), 1)}, edge_constraints = {}\<rparr>"
  by code_simp

lemma dict_set_keys: "fst ` set (dict_set d k v) = insert k (fst ` set d)"
proof (induction d)
  case Nil
  show ?case by simp
next
  case (Cons kv d)
  obtain k' v' where kv: "kv = (k', v')" by (cases kv)
  show ?case using Cons.IH by (cases "k' = k") (auto simp: kv)
qed

lemma find_initial_keys:
  "find_initial_solutions fuel env config cs agents sols = Some (agents', sols') \<Longrightarrow>
   fst ` set sols' = fst ` set sols \<union>
     agent_id ` {a \<in> set agents. astar_search fuel
        \<lparr>astar_env = env, astar_agent_id = agent_id a, astar_constraints = cs\<rparr>
        (agent_start a) (agent_goal a) (MAX_TIME_STEPS config) \<noteq> Some []}"
proof (induction agents arbitrary: sols agents' sols')
  case Nil
  then show ?case by simp
next
  case (Cons agent rest)
  obtain p where p: "astar_search fuel
        \<lparr>astar_env = env, astar_agent_id = agent_id agent, astar_constraints = cs\<rparr>
        (agent_start agent) (agent_goal agent) (MAX_TIME_STEPS config) = Some p"
    using Cons.prems by (auto split: option.splits)
  show ?case
  proof (cases "p = []")
    case True
    then obtain rest' where "find_initial_solutions fuel env config cs rest sols = Some (rest', sols')"
      using Cons.prems p by (auto split: option.splits)
    from Cons.IH[OF this] show ?thesis using p True by auto
  next
    case False
    then obtain rest' where "find_initial_solutions fuel env config cs rest
        (dict_set sols (agent_id agent) p) = Some (rest', sols')"
      using Cons.prems p by (auto split: option.splits)
    from Cons.IH[OF this] show ?thesis using p False by (auto simp: dict_set_keys)
  qed
qed

text \<open>
  C6, as the code has it. The root's dictionary of plans has an entry exactly for the
  agents whose low-level search returned a non-empty plan: an agent without a plan is
  left out and the search goes on with the others. When these plans have no conflict and
  the iteration budget is positive, \<open>search\<close> returns this dictionary.
\<close>

theorem root_plan_of_feasible_agents:
  assumes "find_initial_solutions fuel env config new_ConstraintsSet agents [] = Some (agents', sols)"
  shows "fst ` set sols =
           agent_id ` {a \<in> set agents. astar_search fuel
              \<lparr>astar_env = env, astar_agent_id = agent_id a, astar_constraints = new_ConstraintsSet\<rparr>
              (agent_start a) (agent_goal a) (MAX_TIME_STEPS config) \<noteq> Some []}
         \<and> (find_conflicts sols = Inr [] \<and> 0 < CBS_MAX_ITERATIONS config
              \<longrightarrow> search fuel env config agents = Some (agents', Inr sols))"
  using find_initial_keys[OF assms] assms
  by (simp add: search_def search_exit_def cbs_loop.simps)

lemma blocked3_root:
  "find_initial_solutions 10 blocked3 \<lparr>MAX_TIME_STEPS = 2, CBS_MAX_ITERATIONS = 1000\<rparr>
      new_ConstraintsSet [new_Agent 0 (0,0) (0,2), new_Agent 1 (0,2) (0,2)] []
    = Some ([new_Agent 0 (0,0) (0,2), (new_Agent 1 (0,2) (0,2))\<lparr>agent_path := [(0,2)]\<rparr>],
            [(1, [(0,2)])])"
  by code_simp

lemma single_plan_conflict_free: "find_conflicts [(1, [(0,2)])] = Inr []"
  by code_simp

theorem root_plan_of_feasible_agents_witness:
  "fst ` set [(1::int, [(0::int,2::int)])] =
           agent_id ` {a \<in> set [new_Agent 0 (0,0) (0,2), new_Agent 1 (0,2) (0,2)]. astar_search 10
              \<lparr>astar_env = blocked3, astar_agent_id = agent_id a, astar_constraints = new_ConstraintsSet\<rparr>
              (agent_start a) (agent_goal a) 2 \<noteq> Some []}
   \<and> search 10 blocked3 \<lparr>MAX_TIME_STEPS = 2, CBS_MAX_ITERATIONS = 1000\<rparr>
        [new_Agent 0 (0,0) (0,2), new_Agent 1 (0,2) (0,2)]
      = Some ([new_Agent 0 (0,0) (0,2), (new_Agent 1 (0,2) (0,2))\<lparr>agent_path := [(0,2)]\<rparr>],
              Inr [(1, [(0,2)])])"
  using root_plan_of_feasible_agents[OF blocked3_root] single_plan_conflict_free
  by simp

text \<open>
  C6 as stated fails. In the row with the blocked middle cell, agent 0 has no plan from
  \<open>(0,0)\<close> to \<open>(0,2)\<close>, and agent 1 is at its goal. \<open>search\<close> does not report that
  there is no solution: it returns the joint plan \<open>{1: [(0,2)]}\<close>, which has no entry for
  agent 0.
\<close>

theorem search_omits_infeasible_agent:
  "astar_search 10 \<lparr>astar_env = blocked3, astar_agent_id = 0, astar_constraints = new_ConstraintsSet\<rparr>
       (0,0) (0,2) 2 = Some []
   \<and> search 10 blocked3 \<lparr>MAX_TIME_STEPS = 2, CBS_MAX_ITERATIONS = 1000\<rparr>
        [new_Agent 0 (0,0) (0,2), new_Agent 1 (0,2) (0,2)]
      = Some ([new_Agent 0 (0,0) (0,2), (new_Agent 1 (0,2) (0,2))\<lparr>agent_path := [(0,2)]\<rparr>],
              Inr [(1, [(0,2)])])"
  by code_simp

section \<open>Frame of the search: results\<close>

lemma find_initial_frame:
  "find_initial_solutions fuel env config cs agents sols = Some (agents', sols') \<Longrightarrow>
   map agent_identity agents' = map agent_identity agents"
proof (induction agents arbitrary: sols agents' sols')
  case Nil
  then show ?case by simp
next
  case (Cons agent rest)
  obtain p where p: "astar_search fuel
        \<lparr>astar_env = env, astar_agent_id = agent_id agent, astar_constraints = cs\<rparr>
        (agent_start agent) (agent_goal agent) (MAX_TIME_STEPS config) = Some p"
    using Cons.prems by (auto split: option.splits)
  show ?case
  proof (cases "p = []")
    case True
    then obtain rest' where r: "find_initial_solutions fuel env config cs rest sols = Some (rest', sols')"
      and a: "agents' = agent # rest'"
      using Cons.prems p by (auto split: option.splits)
    from Cons.IH[OF r] show ?thesis using a by simp
  next
    case False
    then obtain rest' where r: "find_initial_solutions fuel env config cs rest
        (dict_set sols (agent_id agent) p) = Some (rest', sols')"
      and a: "agents' = agent\<lparr>agent_path := p, agent_cost := int (length p) - 1\<rparr> # rest'"
      using Cons.prems p by (auto split: option.splits)
    from Cons.IH[OF r] show ?thesis using a by (simp add: agent_identity_def)
  qed
qed

lemma py_index_bound: "py_index xs i = Inr k \<Longrightarrow> k < length xs"
  by (auto simp: py_index_def split: if_splits)

lemma replan_frame:
  "replan_agent fuel env config agents a node = Some (Inr (agents', node')) \<Longrightarrow>
   map agent_identity agents' = map agent_identity agents"
  by (auto simp: replan_agent_def Let_def agent_identity_def map_update list_update_same_conv
      dest!: py_index_bound split: sum.splits option.splits if_splits)

lemma expand_frame:
  "expand_children fuel env config cur conflict agents ol as = Some (agents', r) \<Longrightarrow>
   map agent_identity agents' = map agent_identity agents"
proof (induction as arbitrary: agents ol)
  case Nil
  then show ?case by simp
next
  case (Cons a as)
  let ?nn = "\<lparr>cbs_constraints = child_constraints (cbs_constraints cur) conflict a,
              cbs_solutions = cbs_solutions cur, cbs_cost = 0, cbs_conflicts = []\<rparr>"
  show ?case
  proof (cases "replan_agent fuel env config agents a ?nn")
    case None
    then show ?thesis using Cons.prems by simp
  next
    case (Some res)
    show ?thesis
    proof (cases res)
      case (Inl e)
      then show ?thesis using Cons.prems Some by simp
    next
      case (Inr pr)
      obtain ags1 node1 where pr: "pr = (ags1, node1)" by (cases pr)
      have f1: "map agent_identity ags1 = map agent_identity agents"
        using replan_frame Some Inr pr by blast
      show ?thesis
      proof (cases "find_conflicts (cbs_solutions node1)")
        case (Inl e)
        then show ?thesis using Cons.prems Some Inr pr f1 by (simp add: Let_def)
      next
        case (Inr confs)
        show ?thesis
        proof (cases "confs = []")
          case True
          then show ?thesis using Cons.prems Some \<open>res = Inr pr\<close> pr f1 Inr by (simp add: Let_def)
        next
          case False
          then have "expand_children fuel env config cur conflict ags1
                 (heappush cbs_lt ol
                    (node1\<lparr>cbs_cost := calculate_solution_cost (cbs_solutions node1),
                           cbs_conflicts := confs\<rparr>)) as = Some (agents', r)"
            using Cons.prems Some \<open>res = Inr pr\<close> pr Inr by (simp add: Let_def)
          from Cons.IH[OF this] show ?thesis using f1 by simp
        qed
      qed
    qed
  qed
qed

lemma cbs_loop_frame:
  "cbs_loop fuel env config agents ol iteration = Some (agents', ex) \<Longrightarrow>
   map agent_identity agents' = map agent_identity agents"
proof (induction fuel env config agents ol iteration rule: cbs_loop.induct)
  case (1 fuel env config agents ol iteration)
  show ?case
  proof (cases "ol \<noteq> [] \<and> iteration < CBS_MAX_ITERATIONS config")
    case False
    then show ?thesis using "1.prems" by (subst (asm) cbs_loop.simps) auto
  next
    case True
    obtain cur ol1 where pop: "heappop cbs_lt ol = (cur, ol1)" by (cases "heappop cbs_lt ol")
    show ?thesis
    proof (cases "cbs_conflicts cur")
      case Nil
      then show ?thesis using "1.prems" True pop by (subst (asm) cbs_loop.simps) simp
    next
      case (Cons conflict cs)
      let ?e = "expand_children fuel env config cur conflict agents ol1
                        [conflict_agent1 conflict, conflict_agent2 conflict]"
      show ?thesis
      proof (cases ?e)
        case None
        then show ?thesis using "1.prems" True pop Cons by (subst (asm) cbs_loop.simps) simp
      next
        case (Some res)
        obtain ags1 r where res: "res = (ags1, r)" by (cases res)
        have f1: "map agent_identity ags1 = map agent_identity agents"
          using expand_frame Some res by blast
        show ?thesis
        proof (cases r)
          case (Inl x)
          then show ?thesis using "1.prems" True pop Cons Some res f1
            by (subst (asm) cbs_loop.simps) simp
        next
          case (Inr ol2)
          then have "cbs_loop fuel env config ags1 ol2 (iteration + 1) = Some (agents', ex)"
            using "1.prems" True pop Cons Some res by (subst (asm) cbs_loop.simps) simp
          from "1.IH"[OF True pop[symmetric] Cons Some[unfolded res Inr] refl refl this]
          show ?thesis using f1 by simp
        qed
      qed
    qed
  qed
qed

lemma search_frame:
  assumes "search fuel env config agents = Some (agents', r)"
  shows "map agent_id agents' = map agent_id agents
       \<and> map agent_start agents' = map agent_start agents
       \<and> map agent_goal agents' = map agent_goal agents"
proof -
  have "map agent_identity agents' = map agent_identity agents"
    using assms find_initial_frame cbs_loop_frame
    by (fastforce simp: search_def search_exit_def split: option.splits sum.splits loop_exit.splits if_splits prod.splits)
  then have "map (fst \<circ> agent_identity) agents' = map (fst \<circ> agent_identity) agents"
    and "map (fst \<circ> snd \<circ> agent_identity) agents' = map (fst \<circ> snd \<circ> agent_identity) agents"
    and "map (snd \<circ> snd \<circ> agent_identity) agents' = map (snd \<circ> snd \<circ> agent_identity) agents"
    by (metis map_map)+
  then show ?thesis by (simp add: agent_identity_def comp_def)
qed

lemma find_initial_agents:
  "find_initial_solutions fuel env config cs agents sols = Some (agents1, sols1) \<Longrightarrow>
   list_all2 (\<lambda>a a1. \<exists>p. astar_search fuel
                \<lparr>astar_env = env, astar_agent_id = agent_id a, astar_constraints = cs\<rparr>
                (agent_start a) (agent_goal a) (MAX_TIME_STEPS config) = Some p
              \<and> a1 = with_plan a p) agents agents1"
proof (induction agents arbitrary: sols agents1 sols1)
  case Nil
  then show ?case by simp
next
  case (Cons agent rest)
  obtain p where p: "astar_search fuel
        \<lparr>astar_env = env, astar_agent_id = agent_id agent, astar_constraints = cs\<rparr>
        (agent_start agent) (agent_goal agent) (MAX_TIME_STEPS config) = Some p"
    using Cons.prems by (auto split: option.splits)
  show ?case
  proof (cases "p = []")
    case True
    then obtain rest' where r: "find_initial_solutions fuel env config cs rest sols = Some (rest', sols1)"
      and a: "agents1 = agent # rest'"
      using Cons.prems p by (auto split: option.splits)
    from Cons.IH[OF r] show ?thesis using a p True by (simp add: with_plan_def)
  next
    case False
    then obtain rest' where r: "find_initial_solutions fuel env config cs rest
        (dict_set sols (agent_id agent) p) = Some (rest', sols1)"
      and a: "agents1 = agent\<lparr>agent_path := p, agent_cost := int (length p) - 1\<rparr> # rest'"
      using Cons.prems p by (auto split: option.splits)
    from Cons.IH[OF r] show ?thesis using a p False by (simp add: with_plan_def)
  qed
qed

lemma replan_agent_assigns:
  assumes "replan_agent fuel env config agents a node = Some (Inr (agents2, node2))"
  shows "\<exists>i p. py_index agents a = Inr i
           \<and> astar_search fuel
                \<lparr>astar_env = env, astar_agent_id = a, astar_constraints = cbs_constraints node\<rparr>
                (agent_start (agents ! i)) (agent_goal (agents ! i)) (MAX_TIME_STEPS config) = Some p
           \<and> agents2 = agents[i := with_plan (agents ! i) p]
           \<and> node2 = (if p \<noteq> [] then node\<lparr>cbs_solutions := dict_set (cbs_solutions node) a p\<rparr>
                      else node)"
proof -
  obtain i where i: "py_index agents a = Inr i"
    using assms by (auto simp: replan_agent_def split: sum.splits)
  obtain p where p: "astar_search fuel
                \<lparr>astar_env = env, astar_agent_id = a, astar_constraints = cbs_constraints node\<rparr>
                (agent_start (agents ! i)) (agent_goal (agents ! i)) (MAX_TIME_STEPS config) = Some p"
    using assms i by (auto simp: replan_agent_def Let_def split: option.splits)
  have "agents2 = agents[i := with_plan (agents ! i) p]
        \<and> node2 = (if p \<noteq> [] then node\<lparr>cbs_solutions := dict_set (cbs_solutions node) a p\<rparr>
                      else node)"
    using assms i p by (auto simp: replan_agent_def Let_def with_plan_def split: if_splits)
  then show ?thesis using i p by blast
qed

lemma expand_children_step:
  assumes "expand_children fuel env config cur c agents ol (a # rest) = Some (agents', r)"
  shows "(py_index agents a = Inl IndexError \<and> agents' = agents \<and> r = Inl (Loop_raised IndexError))
       \<or> (\<exists>agents1 node1.
             replan_agent fuel env config agents a
               \<lparr>cbs_constraints = child_constraints (cbs_constraints cur) c a,
                cbs_solutions = cbs_solutions cur, cbs_cost = 0, cbs_conflicts = []\<rparr>
               = Some (Inr (agents1, node1))
             \<and> (agents' = agents1
                \<or> (\<exists>ol'. expand_children fuel env config cur c agents1 ol' rest = Some (agents', r))))"
proof -
  let ?nn = "\<lparr>cbs_constraints = child_constraints (cbs_constraints cur) c a,
              cbs_solutions = cbs_solutions cur, cbs_cost = 0, cbs_conflicts = []\<rparr>"
  obtain res where res: "replan_agent fuel env config agents a ?nn = Some res"
    using assms by (auto split: option.splits)
  show ?thesis
  proof (cases res)
    case (Inl e)
    then have "py_index agents a = Inl IndexError"
      using res by (auto simp: replan_agent_def Let_def py_index_def split: sum.splits option.splits if_splits)
    moreover have "e = IndexError"
      using res Inl by (auto simp: replan_agent_def Let_def py_index_def split: sum.splits option.splits if_splits)
    ultimately show ?thesis using assms res Inl by simp
  next
    case (Inr pr)
    obtain ags1 node1 where pr: "pr = (ags1, node1)" by (cases pr)
    show ?thesis
    proof (cases "find_conflicts (cbs_solutions node1)")
      case (Inl e)
      then show ?thesis using assms res Inr pr by (auto simp: Let_def)
    next
      case fc: (Inr confs)
      show ?thesis
      proof (cases "confs = []")
        case True
        then show ?thesis using assms res Inr pr fc by (auto simp: Let_def)
      next
        case False
        then have "expand_children fuel env config cur c ags1
                 (heappush cbs_lt ol
                    (node1\<lparr>cbs_cost := calculate_solution_cost (cbs_solutions node1),
                           cbs_conflicts := confs\<rparr>)) rest = Some (agents', r)"
          using assms res Inr pr fc by (simp add: Let_def)
        then show ?thesis using res Inr pr by blast
      qed
    qed
  qed
qed


lemma replan_calls_append:
  "replan_calls fuel env config calls1 a = Some b \<Longrightarrow>
   replan_calls fuel env config calls2 b = Some c \<Longrightarrow>
   replan_calls fuel env config (calls1 @ calls2) a = Some c"
proof (induction calls1 arbitrary: a)
  case Nil
  then show ?case by simp
next
  case (Cons x calls1)
  obtain k node where x: "x = (k, node)" by (cases x)
  from Cons.prems(1) obtain a' node' where
    r: "replan_agent fuel env config a k node = Some (Inr (a', node'))"
    and rest: "replan_calls fuel env config calls1 a' = Some b"
    unfolding x by (auto split: option.splits sum.splits)
  from Cons.IH[OF rest Cons.prems(2)] show ?case unfolding x using r by simp
qed

lemma expand_replan_calls:
  "expand_children fuel env config cur c agents ol as = Some (agents', r) \<Longrightarrow>
   \<exists>calls. replan_calls fuel env config calls agents = Some agents'"
proof (induction as arbitrary: agents ol)
  case Nil
  then have "replan_calls fuel env config [] agents = Some agents'" by simp
  then show ?case by blast
next
  case (Cons a as)
  let ?nn = "\<lparr>cbs_constraints = child_constraints (cbs_constraints cur) c a,
              cbs_solutions = cbs_solutions cur, cbs_cost = 0, cbs_conflicts = []\<rparr>"
  from expand_children_step[OF Cons.prems]
  consider (raised) "agents' = agents"
    | (child) agents1 node1 where
        "replan_agent fuel env config agents a ?nn = Some (Inr (agents1, node1))"
        "agents' = agents1
         \<or> (\<exists>ol'. expand_children fuel env config cur c agents1 ol' as = Some (agents', r))"
    by blast
  then show ?case
  proof cases
    case raised
    then have "replan_calls fuel env config [] agents = Some agents'" by simp
    then show ?thesis by blast
  next
    case child
    have r1: "replan_calls fuel env config [(a, ?nn)] agents = Some agents1"
      using child(1) by simp
    from child(2) show ?thesis
    proof
      assume "agents' = agents1"
      then show ?thesis using r1 by blast
    next
      assume "\<exists>ol'. expand_children fuel env config cur c agents1 ol' as = Some (agents', r)"
      then obtain ol' where "expand_children fuel env config cur c agents1 ol' as = Some (agents', r)"
        by blast
      from Cons.IH[OF this] obtain calls where
        "replan_calls fuel env config calls agents1 = Some agents'" by blast
      from replan_calls_append[OF r1 this] show ?thesis by blast
    qed
  qed
qed

lemma cbs_loop_replan_calls:
  "cbs_loop fuel env config agents ol iteration = Some (agents', ex) \<Longrightarrow>
   \<exists>calls. replan_calls fuel env config calls agents = Some agents'"
proof (induction fuel env config agents ol iteration rule: cbs_loop.induct)
  case (1 fuel env config agents ol iteration)
  have same: "\<exists>calls. replan_calls fuel env config calls agents = Some agents'"
    if "agents' = agents"
  proof -
    have "replan_calls fuel env config [] agents = Some agents'" using that by simp
    then show ?thesis by blast
  qed
  show ?case
  proof (cases "ol \<noteq> [] \<and> iteration < CBS_MAX_ITERATIONS config")
    case False
    then have "agents' = agents" using "1.prems" by (subst (asm) cbs_loop.simps) auto
    then show ?thesis by (rule same)
  next
    case True
    obtain cur ol1 where pop: "heappop cbs_lt ol = (cur, ol1)" by (cases "heappop cbs_lt ol")
    show ?thesis
    proof (cases "cbs_conflicts cur")
      case Nil
      then have "agents' = agents"
        using "1.prems" True pop by (subst (asm) cbs_loop.simps) simp
      then show ?thesis by (rule same)
    next
      case (Cons conflict cs)
      let ?e = "expand_children fuel env config cur conflict agents ol1
                        [conflict_agent1 conflict, conflict_agent2 conflict]"
      show ?thesis
      proof (cases ?e)
        case None
        then show ?thesis using "1.prems" True pop Cons by (subst (asm) cbs_loop.simps) simp
      next
        case (Some res)
        obtain ags1 r where res: "res = (ags1, r)" by (cases res)
        obtain calls1 where r1: "replan_calls fuel env config calls1 agents = Some ags1"
          using expand_replan_calls Some res by blast
        show ?thesis
        proof (cases r)
          case (Inl x)
          then have "agents' = ags1"
            using "1.prems" True pop Cons Some res by (subst (asm) cbs_loop.simps) simp
          then show ?thesis using r1 by blast
        next
          case (Inr ol2)
          then have "cbs_loop fuel env config ags1 ol2 (iteration + 1) = Some (agents', ex)"
            using "1.prems" True pop Cons Some res by (subst (asm) cbs_loop.simps) simp
          from "1.IH"[OF True pop[symmetric] Cons Some[unfolded res Inr] refl refl this]
          obtain calls2 where "replan_calls fuel env config calls2 ags1 = Some agents'" by blast
          from replan_calls_append[OF r1 this] show ?thesis by blast
        qed
      qed
    qed
  qed
qed

lemma search_replan_calls:
  assumes "search fuel env config agents = Some (agents', r)"
  shows "\<exists>agents1 sols calls.
           find_initial_solutions fuel env config new_ConstraintsSet agents [] = Some (agents1, sols)
           \<and> replan_calls fuel env config calls agents1 = Some agents'"
proof -
  obtain ex where se: "search_exit fuel env config agents = Some (agents', ex)"
    using assms by (auto simp: search_def split: option.splits loop_exit.splits if_splits)
  obtain agents1 sols where fi:
    "find_initial_solutions fuel env config new_ConstraintsSet agents [] = Some (agents1, sols)"
    using se by (auto simp: search_exit_def split: option.splits)
  have "\<exists>calls. replan_calls fuel env config calls agents1 = Some agents'"
  proof (cases "find_conflicts sols")
    case (Inl e)
    then have "agents' = agents1" using se fi by (simp add: search_exit_def)
    then have "replan_calls fuel env config [] agents1 = Some agents'" by simp
    then show ?thesis by blast
  next
    case (Inr confs)
    then show ?thesis using se fi cbs_loop_replan_calls by (simp add: search_exit_def Let_def)
  qed
  then show ?thesis using fi by blast
qed

text \<open>
  C7, as the code has it. \<open>search\<close> keeps the ids, starts and goals of the agents, in the
  same order, and assigns \<open>path\<close> and \<open>cost\<close> of every agent for which a plan is found.
  At the root (\<open>_find_initial_solutions\<close>) every agent whose plan \<open>p\<close> is non-empty gets
  \<open>path = p\<close> and \<open>cost = len(p) - 1\<close>, and every other agent stays as it is. Every
  call of \<open>_replan_agent\<close> that returns does the same to \<open>self.agents[agent_id]\<close> and to
  no other agent, and stores a non-empty plan in the node. The loop over the two agents
  of a conflict calls \<open>_replan_agent\<close> for each child it reaches. The list of agents
  that \<open>search\<close> leaves is the list of the root after a sequence of such calls. (The
  grid is not part of the returned state: no statement of the searches assigns to it.)
\<close>

theorem search_assigns_path_and_cost:
  "(search fuel env config agents = Some (agents', r) \<longrightarrow>
      map agent_id agents' = map agent_id agents
      \<and> map agent_start agents' = map agent_start agents
      \<and> map agent_goal agents' = map agent_goal agents
      \<and> (\<exists>agents1 sols calls.
            find_initial_solutions fuel env config new_ConstraintsSet agents [] = Some (agents1, sols)
            \<and> replan_calls fuel env config calls agents1 = Some agents'))
   \<and> (find_initial_solutions fuel env config cs agents sols0 = Some (agents1, sols1) \<longrightarrow>
         length agents1 = length agents
         \<and> (\<forall>i < length agents. \<exists>p.
               astar_search fuel
                 \<lparr>astar_env = env, astar_agent_id = agent_id (agents ! i), astar_constraints = cs\<rparr>
                 (agent_start (agents ! i)) (agent_goal (agents ! i)) (MAX_TIME_STEPS config) = Some p
               \<and> agents1 ! i = with_plan (agents ! i) p))
   \<and> (replan_agent fuel env config agents a node = Some (Inr (agents2, node2)) \<longrightarrow>
         (\<exists>i p. py_index agents a = Inr i
            \<and> astar_search fuel
                 \<lparr>astar_env = env, astar_agent_id = a, astar_constraints = cbs_constraints node\<rparr>
                 (agent_start (agents ! i)) (agent_goal (agents ! i)) (MAX_TIME_STEPS config) = Some p
            \<and> agents2 = agents[i := with_plan (agents ! i) p]
            \<and> node2 = (if p \<noteq> [] then node\<lparr>cbs_solutions := dict_set (cbs_solutions node) a p\<rparr>
                       else node)))
   \<and> (expand_children fuel env config cur c agents ol (a # rest) = Some (agents3, r3) \<longrightarrow>
         (py_index agents a = Inl IndexError \<and> agents3 = agents \<and> r3 = Inl (Loop_raised IndexError))
         \<or> (\<exists>ags node1.
               replan_agent fuel env config agents a
                 \<lparr>cbs_constraints = child_constraints (cbs_constraints cur) c a,
                  cbs_solutions = cbs_solutions cur, cbs_cost = 0, cbs_conflicts = []\<rparr>
                 = Some (Inr (ags, node1))
               \<and> (agents3 = ags
                  \<or> (\<exists>ol'. expand_children fuel env config cur c ags ol' rest = Some (agents3, r3)))))"
proof (intro conjI impI)
  assume s: "search fuel env config agents = Some (agents', r)"
  from search_frame[OF s]
  show "map agent_id agents' = map agent_id agents"
    and "map agent_start agents' = map agent_start agents"
    and "map agent_goal agents' = map agent_goal agents"
    by auto
  from search_replan_calls[OF s]
  show "\<exists>agents1 sols calls.
            find_initial_solutions fuel env config new_ConstraintsSet agents [] = Some (agents1, sols)
            \<and> replan_calls fuel env config calls agents1 = Some agents'" .
next
  assume f: "find_initial_solutions fuel env config cs agents sols0 = Some (agents1, sols1)"
  from find_initial_agents[OF f]
  show "length agents1 = length agents"
    and "\<forall>i < length agents. \<exists>p.
               astar_search fuel
                 \<lparr>astar_env = env, astar_agent_id = agent_id (agents ! i), astar_constraints = cs\<rparr>
                 (agent_start (agents ! i)) (agent_goal (agents ! i)) (MAX_TIME_STEPS config) = Some p
               \<and> agents1 ! i = with_plan (agents ! i) p"
    by (auto simp: list_all2_conv_all_nth)
next
  assume "replan_agent fuel env config agents a node = Some (Inr (agents2, node2))"
  from replan_agent_assigns[OF this]
  show "\<exists>i p. py_index agents a = Inr i
            \<and> astar_search fuel
                 \<lparr>astar_env = env, astar_agent_id = a, astar_constraints = cbs_constraints node\<rparr>
                 (agent_start (agents ! i)) (agent_goal (agents ! i)) (MAX_TIME_STEPS config) = Some p
            \<and> agents2 = agents[i := with_plan (agents ! i) p]
            \<and> node2 = (if p \<noteq> [] then node\<lparr>cbs_solutions := dict_set (cbs_solutions node) a p\<rparr>
                       else node)" .
next
  assume "expand_children fuel env config cur c agents ol (a # rest) = Some (agents3, r3)"
  from expand_children_step[OF this]
  show "(py_index agents a = Inl IndexError \<and> agents3 = agents \<and> r3 = Inl (Loop_raised IndexError))
         \<or> (\<exists>ags node1.
               replan_agent fuel env config agents a
                 \<lparr>cbs_constraints = child_constraints (cbs_constraints cur) c a,
                  cbs_solutions = cbs_solutions cur, cbs_cost = 0, cbs_conflicts = []\<rparr>
                 = Some (Inr (ags, node1))
               \<and> (agents3 = ags
                  \<or> (\<exists>ol'. expand_children fuel env config cur c ags ol' rest = Some (agents3, r3))))" .
qed

lemma swap_root:
  "find_initial_solutions 10 corridor2 \<lparr>MAX_TIME_STEPS = 3, CBS_MAX_ITERATIONS = 1\<rparr>
      new_ConstraintsSet [new_Agent 0 (0,0) (0,1), new_Agent 1 (0,1) (0,0)] []
   = Some ([(new_Agent 0 (0,0) (0,1))\<lparr>agent_path := [(0,0), (0,1)], agent_cost := 1\<rparr>,
            (new_Agent 1 (0,1) (0,0))\<lparr>agent_path := [(0,1), (0,0)], agent_cost := 1\<rparr>],
           [(0, [(0,0), (0,1)]), (1, [(0,1), (0,0)])])"
  by code_simp

lemma swap_replan:
  "replan_agent 10 corridor2 \<lparr>MAX_TIME_STEPS = 3, CBS_MAX_ITERATIONS = 1\<rparr>
      [(new_Agent 0 (0,0) (0,1))\<lparr>agent_path := [(0,0), (0,1)], agent_cost := 1\<rparr>,
       (new_Agent 1 (0,1) (0,0))\<lparr>agent_path := [(0,1), (0,0)], agent_cost := 1\<rparr>]
      0
      \<lparr>cbs_constraints = \<lparr>vertex_constraints = {(0, (0,1), 1)}, edge_constraints = {}\<rparr>,
       cbs_solutions = [(0, [(0,0), (0,1)]), (1, [(0,1), (0,0)])],
       cbs_cost = 0, cbs_conflicts = []\<rparr>
   = Some (Inr ([(new_Agent 0 (0,0) (0,1))\<lparr>agent_path := [(0,0), (0,0), (0,1)], agent_cost := 2\<rparr>,
                 (new_Agent 1 (0,1) (0,0))\<lparr>agent_path := [(0,1), (0,0)], agent_cost := 1\<rparr>],
                \<lparr>cbs_constraints = \<lparr>vertex_constraints = {(0, (0,1), 1)}, edge_constraints = {}\<rparr>,
                 cbs_solutions = [(0, [(0,0), (0,0), (0,1)]), (1, [(0,1), (0,0)])],
                 cbs_cost = 0, cbs_conflicts = []\<rparr>))"
  by code_simp

lemma swap_search:
  "search 10 corridor2 \<lparr>MAX_TIME_STEPS = 3, CBS_MAX_ITERATIONS = 1\<rparr>
      [new_Agent 0 (0,0) (0,1), new_Agent 1 (0,1) (0,0)]
     = Some ([(new_Agent 0 (0,0) (0,1))\<lparr>agent_path := [(0,0), (0,0), (0,1)], agent_cost := 2\<rparr>,
              (new_Agent 1 (0,1) (0,0))\<lparr>agent_path := [(0,1), (0,0)], agent_cost := 1\<rparr>],
             Inr [(0, [(0,0), (0,1)]), (1, [(0,1), (0,0)])])"
  by code_simp

lemma swap_replan_plan:
  "astar_search 10
     \<lparr>astar_env = corridor2, astar_agent_id = 0,
      astar_constraints = \<lparr>vertex_constraints = {(0, (0,1), 1)}, edge_constraints = {}\<rparr>\<rparr>
     (0,0) (0,1) 3 = Some [(0,0), (0,0), (0,1)]"
  by code_simp

theorem search_assigns_path_and_cost_witness:
  "search 10 corridor2 \<lparr>MAX_TIME_STEPS = 3, CBS_MAX_ITERATIONS = 1\<rparr>
      [new_Agent 0 (0,0) (0,1), new_Agent 1 (0,1) (0,0)]
     = Some ([(new_Agent 0 (0,0) (0,1))\<lparr>agent_path := [(0,0), (0,0), (0,1)], agent_cost := 2\<rparr>,
              (new_Agent 1 (0,1) (0,0))\<lparr>agent_path := [(0,1), (0,0)], agent_cost := 1\<rparr>],
             Inr [(0, [(0,0), (0,1)]), (1, [(0,1), (0,0)])])
   \<and> map agent_id [(new_Agent 0 (0,0) (0,1))\<lparr>agent_path := [(0,0), (0,0), (0,1)], agent_cost := 2\<rparr>,
                    (new_Agent 1 (0,1) (0,0))\<lparr>agent_path := [(0,1), (0,0)], agent_cost := 1\<rparr>]
       = map agent_id [new_Agent 0 (0,0) (0,1), new_Agent 1 (0,1) (0,0)]
   \<and> [(new_Agent 0 (0,0) (0,1))\<lparr>agent_path := [(0,0), (0,0), (0,1)], agent_cost := 2\<rparr>,
       (new_Agent 1 (0,1) (0,0))\<lparr>agent_path := [(0,1), (0,0)], agent_cost := 1\<rparr>]
      = [(new_Agent 0 (0,0) (0,1))\<lparr>agent_path := [(0,0), (0,1)], agent_cost := 1\<rparr>,
         (new_Agent 1 (0,1) (0,0))\<lparr>agent_path := [(0,1), (0,0)], agent_cost := 1\<rparr>]
        [0 := with_plan ((new_Agent 0 (0,0) (0,1))\<lparr>agent_path := [(0,0), (0,1)], agent_cost := 1\<rparr>)
                [(0,0), (0,0), (0,1)]]"
proof -
  let ?cfg = "\<lparr>MAX_TIME_STEPS = 3, CBS_MAX_ITERATIONS = 1\<rparr>"
  let ?R = "[(new_Agent 0 (0,0) (0,1))\<lparr>agent_path := [(0,0), (0,1)], agent_cost := 1\<rparr>,
             (new_Agent 1 (0,1) (0,0))\<lparr>agent_path := [(0,1), (0,0)], agent_cost := 1\<rparr>]"
  let ?F = "[(new_Agent 0 (0,0) (0,1))\<lparr>agent_path := [(0,0), (0,0), (0,1)], agent_cost := 2\<rparr>,
             (new_Agent 1 (0,1) (0,0))\<lparr>agent_path := [(0,1), (0,0)], agent_cost := 1\<rparr>]"
  note t = search_assigns_path_and_cost
  have ids: "map agent_id ?F = map agent_id [new_Agent 0 (0,0) (0,1), new_Agent 1 (0,1) (0,0)]"
    using t[THEN conjunct1, rule_format, OF swap_search] by simp
  from t[THEN conjunct2, THEN conjunct2, THEN conjunct1, rule_format, OF swap_replan]
  obtain i p where i: "py_index ?R 0 = Inr i"
    and p: "astar_search 10
                 \<lparr>astar_env = corridor2, astar_agent_id = 0,
                  astar_constraints = cbs_constraints
                    \<lparr>cbs_constraints = \<lparr>vertex_constraints = {(0, (0,1), 1)}, edge_constraints = {}\<rparr>,
                     cbs_solutions = [(0, [(0,0), (0,1)]), (1, [(0,1), (0,0)])],
                     cbs_cost = 0, cbs_conflicts = []\<rparr>\<rparr>
                 (agent_start (?R ! i)) (agent_goal (?R ! i)) (MAX_TIME_STEPS ?cfg) = Some p"
    and f: "?F = ?R[i := with_plan (?R ! i) p]"
    by blast
  have i0: "i = 0" using i by (simp add: py_index_def)
  have "p = [(0,0), (0,0), (0,1)]"
    using p swap_replan_plan by (simp add: i0 new_Agent_def)
  then have "?F = ?R[0 := with_plan (?R ! 0) [(0,0), (0,0), (0,1)]]"
    using f i0 by simp
  then show ?thesis using swap_search ids by simp
qed

text \<open>
  C7 as stated fails: \<open>search\<close> assigns the \<open>path\<close> and \<open>cost\<close> of the agents it plans.
  The single agent of the corridor has the empty path and cost 0 before the call and its
  plan and cost 1 after it. For the two agents that swap the cells of the corridor, the
  replanning of agent 0 under the constraint of its child leaves it with the path
  \<open>[(0,0), (0,0), (0,1)]\<close> and the cost 2, although the returned plan of agent 0 is
  \<open>[(0,0), (0,1)]\<close>.
\<close>

theorem search_mutates_agent:
  "search 10 corridor2 \<lparr>MAX_TIME_STEPS = 3, CBS_MAX_ITERATIONS = 1000\<rparr> [new_Agent 0 (0,0) (0,1)]
     = Some ([(new_Agent 0 (0,0) (0,1))\<lparr>agent_path := [(0,0), (0,1)], agent_cost := 1\<rparr>],
             Inr [(0, [(0,0), (0,1)])])
   \<and> (new_Agent 0 (0,0) (0,1))\<lparr>agent_path := [(0,0), (0,1)], agent_cost := 1\<rparr> \<noteq> new_Agent 0 (0,0) (0,1)
   \<and> map_option fst
        (search 10 corridor2 \<lparr>MAX_TIME_STEPS = 3, CBS_MAX_ITERATIONS = 1\<rparr>
           [new_Agent 0 (0,0) (0,1), new_Agent 1 (0,1) (0,0)])
      = Some [(new_Agent 0 (0,0) (0,1))\<lparr>agent_path := [(0,0), (0,0), (0,1)], agent_cost := 2\<rparr>,
              (new_Agent 1 (0,1) (0,0))\<lparr>agent_path := [(0,1), (0,0)], agent_cost := 1\<rparr>]"
  by code_simp

section \<open>Low-level search: results\<close>

lemma reconstruct_loop_prefix:
  "reconstruct_loop fuel ns cur p = Some q \<Longrightarrow> \<exists>r. q = p @ r"
proof (induction fuel ns cur p rule: reconstruct_loop.induct)
  case (1 fuel ns p)
  then show ?case by simp
next
  case (2 ns a p)
  then show ?case by simp
next
  case (3 fuel ns a p)
  then show ?case by fastforce
qed

lemma reconstruct_path_last:
  assumes "reconstruct_path fuel ns a = Some q"
  shows "q \<noteq> [] \<and> last q = (node_x (ns ! a), node_y (ns ! a))"
proof -
  obtain q' where q': "reconstruct_loop fuel ns (Some a) [] = Some q'" and q: "q = rev q'"
    using assms by (auto simp: reconstruct_path_def)
  obtain n where fuel: "fuel = Suc n" using q' by (cases fuel) auto
  from q' have "reconstruct_loop n ns (node_parent (ns ! a)) [(node_x (ns ! a), node_y (ns ! a))] = Some q'"
    by (simp add: fuel)
  then obtain r where "q' = (node_x (ns ! a), node_y (ns ! a)) # r"
    using reconstruct_loop_prefix by fastforce
  then show ?thesis using q by simp
qed

lemma astar_body_Found:
  "astar_body self goal max_time st = Found st' a \<Longrightarrow>
   (node_x (nodes st' ! a), node_y (nodes st' ! a)) = goal"
  by (auto simp: astar_body_def Let_def split: prod.splits if_splits)

lemma astar_loop_goal:
  "astar_loop rfuel self goal max_time fuel st = Some (st', p) \<Longrightarrow> p \<noteq> [] \<Longrightarrow> last p = goal"
proof (induction fuel arbitrary: st)
  case 0
  then show ?case by simp
next
  case (Suc fuel)
  show ?case
  proof (cases "open_list st = []")
    case True
    then show ?thesis using Suc.prems by simp
  next
    case False
    show ?thesis
    proof (cases "astar_body self goal max_time st")
      case (Continue st1)
      then show ?thesis using Suc False by simp
    next
      case (Found st1 a)
      then have "reconstruct_path rfuel (nodes st1) a = Some p"
        using Suc.prems False by auto
      then show ?thesis using reconstruct_path_last astar_body_Found[OF Found] by simp
    qed
  qed
qed

lemma start_at_goal_returns:
  "astar_search (Suc fuel) self goal goal max_time = Some [goal]"
proof -
  let ?n = "new_SippNode (fst goal) (snd goal) 0 0 (get_manhattan_distance goal goal) None"
  have init: "astar_init goal goal =
      \<lparr>open_list = [0], closed_set = {},
       node_dict = [(node_x ?n, node_y ?n, node_t ?n) \<mapsto> 0], nodes = [?n], reopened = 0\<rparr>"
    by (simp add: astar_init_def Let_def)
  have body: "astar_body self goal max_time (astar_init goal goal)
                = Found ((astar_init goal goal)\<lparr>open_list := []\<rparr>) 0"
    by (simp add: init astar_body_def Let_def new_SippNode_def)
  have "reconstruct_path (Suc fuel) (nodes ((astar_init goal goal)\<lparr>open_list := []\<rparr>)) 0 = Some [goal]"
    by (simp add: init reconstruct_path_def new_SippNode_def)
  then show ?thesis
    using body by (simp add: astar_search_def astar_run_def init)
qed

text \<open>
  C3, as the code has it. The goal test of the low-level search (line 76) reads the cell
  of the popped node only: an iteration of the loop returns exactly when the cell of the
  node it pops is the goal, whatever the time of the node and the constraint set are,
  and it then ends the loop at that node. So every non-empty plan that
  \<open>search\<close> returns ends at the goal cell, and a search that starts at the goal returns
  the one-cell plan, which arrives at time 0, under every constraint set.
\<close>

theorem goal_test_reads_cell_only:
  "((\<exists>st' a. astar_body self goal max_time st = Found st' a)
      \<longleftrightarrow> (node_x (nodes st ! fst (heappop (node_lt (nodes st)) (open_list st))),
           node_y (nodes st ! fst (heappop (node_lt (nodes st)) (open_list st)))) = goal)
   \<and> ((node_x (nodes st ! fst (heappop (node_lt (nodes st)) (open_list st))),
        node_y (nodes st ! fst (heappop (node_lt (nodes st)) (open_list st)))) = goal
       \<longrightarrow> astar_body self goal max_time st
             = Found (st\<lparr>open_list := snd (heappop (node_lt (nodes st)) (open_list st))\<rparr>)
                     (fst (heappop (node_lt (nodes st)) (open_list st))))
   \<and> (astar_search fuel self start goal max_time = Some p \<and> p \<noteq> [] \<longrightarrow> last p = goal)
   \<and> astar_search (Suc fuel) self goal goal max_time = Some [goal]"
proof (intro conjI impI)
  obtain cur rest where pop: "heappop (node_lt (nodes st)) (open_list st) = (cur, rest)"
    by (cases "heappop (node_lt (nodes st)) (open_list st)")
  show "(\<exists>st' a. astar_body self goal max_time st = Found st' a)
      \<longleftrightarrow> (node_x (nodes st ! fst (heappop (node_lt (nodes st)) (open_list st))),
           node_y (nodes st ! fst (heappop (node_lt (nodes st)) (open_list st)))) = goal"
    by (auto simp: astar_body_def Let_def pop split: if_splits)
  show "astar_body self goal max_time st
             = Found (st\<lparr>open_list := snd (heappop (node_lt (nodes st)) (open_list st))\<rparr>)
                     (fst (heappop (node_lt (nodes st)) (open_list st)))"
    if "(node_x (nodes st ! fst (heappop (node_lt (nodes st)) (open_list st))),
        node_y (nodes st ! fst (heappop (node_lt (nodes st)) (open_list st)))) = goal"
    using that by (auto simp: astar_body_def Let_def pop)
next
  assume a: "astar_search fuel self start goal max_time = Some p \<and> p \<noteq> []"
  then obtain st' where "astar_loop fuel self goal max_time fuel (astar_init start goal) = Some (st', p)"
    by (auto simp: astar_search_def astar_run_def)
  from astar_loop_goal[OF this] a show "last p = goal" by simp
next
  show "astar_search (Suc fuel) self goal goal max_time = Some [goal]"
    by (rule start_at_goal_returns)
qed

theorem goal_test_reads_cell_only_witness:
  "(case astar_body
           \<lparr>astar_env = corridor2, astar_agent_id = 0,
            astar_constraints = add_vertex_constraint new_ConstraintsSet (0, (0,1), 7)\<rparr>
           (0,1) 300 (astar_init (0,1) (0,1)) of
      Found st' a \<Rightarrow> a = 0 | Continue st' \<Rightarrow> False)
   \<and> astar_search 10
       \<lparr>astar_env = corridor2, astar_agent_id = 0,
        astar_constraints = add_vertex_constraint new_ConstraintsSet (0, (0,1), 7)\<rparr>
       (0,1) (0,1) 300 = Some [(0,1)]
   \<and> astar_search 10
       \<lparr>astar_env = corridor2, astar_agent_id = 0,
        astar_constraints = add_vertex_constraint new_ConstraintsSet (0, (0,1), 1)\<rparr>
       (0,0) (0,1) 300 = Some [(0,0), (0,0), (0,1)]
   \<and> last [(0::int,0::int), (0,0), (0,1)] = (0,1)"
proof -
  let ?A = "\<lparr>astar_env = corridor2, astar_agent_id = 0,
            astar_constraints = add_vertex_constraint new_ConstraintsSet (0, (0,1), 7)\<rparr>"
  let ?B = "\<lparr>astar_env = corridor2, astar_agent_id = 0,
            astar_constraints = add_vertex_constraint new_ConstraintsSet (0, (0,1), 1)\<rparr>"
  let ?st = "astar_init (0,1) (0,1)"
  have pop: "heappop (node_lt (nodes ?st)) (open_list ?st) = (0, [])"
    by (simp add: astar_init_def Let_def)
  have cell: "(node_x (nodes ?st ! fst (heappop (node_lt (nodes ?st)) (open_list ?st))),
               node_y (nodes ?st ! fst (heappop (node_lt (nodes ?st)) (open_list ?st)))) = (0,1)"
    by (simp add: pop) (simp add: astar_init_def Let_def new_SippNode_def)
  note t = goal_test_reads_cell_only[of ?A "(0,1)" 300 ?st]
  have b: "astar_body ?A (0,1) 300 ?st = Found (?st\<lparr>open_list := []\<rparr>) 0"
    using t[of 9 "(0,1)" "[]"] cell by (simp add: pop)
  have s: "astar_search 10 ?A (0,1) (0,1) 300 = Some [(0,1)]"
    using goal_test_reads_cell_only[of ?A "(0,1)" 300 ?st 9 "(0,1)" "[]"] by simp
  have run: "astar_search 10 ?B (0,0) (0,1) 300 = Some [(0,0), (0,0), (0,1)]"
    by code_simp
  have l: "last [(0::int,0::int), (0,0), (0,1)] = (0,1)"
    using goal_test_reads_cell_only[of ?B "(0,1)" 300 ?st 10 "(0,0)" "[(0,0), (0,0), (0,1)]"] run
    by simp
  show ?thesis using b s run l by simp
qed

text \<open>
  C3 as stated fails. With the vertex constraint \<open>(0, (0,0), 5)\<close> on the goal cell
  \<open>(0,0)\<close>, the latest forbidden time at the goal is 5, but the search started at the goal
  accepts the state \<open>((0,0), 0)\<close> and returns the one-cell plan, which arrives at time 0.
\<close>

theorem goal_accepted_before_constraint:
  "astar_search 10
     \<lparr>astar_env = corridor2, astar_agent_id = 0,
      astar_constraints = add_vertex_constraint new_ConstraintsSet (0, (0,0), 5)\<rparr>
     (0,0) (0,0) 300 = Some [(0,0)]"
  by code_simp

lemma astar_init_inv: "astar_inv (astar_init start goal)"
  by (auto simp: astar_inv_def astar_init_def Let_def new_SippNode_def node_key_def
      split: if_splits)

lemma process_neighbor_inv:
  assumes inv: "astar_inv st" and cur: "cur < length (nodes st)"
    and nt: "nt = node_t (nodes st ! cur) + 1"
  shows "astar_inv (process_neighbor self goal cur st (nx, ny, nt))
         \<and> (\<exists>ext. nodes (process_neighbor self goal cur st (nx, ny, nt)) = nodes st @ ext)
         \<and> map node_key (nodes (process_neighbor self goal cur st (nx, ny, nt)))
             = map node_key (nodes st) @
               (if is_constrained (astar_constraints self) (astar_agent_id self) (nx, ny) nt
                   \<or> is_edge_constrained (astar_constraints self) (astar_agent_id self)
                        (node_x (nodes st ! cur), node_y (nodes st ! cur)) (nx, ny)
                        (node_t (nodes st ! cur))
                then [] else [(nx, ny, nt)])"
proof -
  let ?c = "nodes st ! cur"
  define new where
    "new = new_SippNode nx ny nt (node_g ?c + 1) (get_manhattan_distance (nx, ny) goal) (Some cur)"
  define st1 where "st1 = st\<lparr>nodes := nodes st @ [new]\<rparr>"
  from inv have o: "\<forall>a\<in>set (open_list st). a < length (nodes st)"
    and g: "\<forall>n\<in>set (nodes st). node_g n = node_t n"
    and d: "\<And>k a. node_dict st k = Some a \<Longrightarrow> a < length (nodes st) \<and> node_key (nodes st ! a) = k"
    and r: "reopened st = 0"
    by (auto simp: astar_inv_def)
  have gc: "node_g ?c = node_t ?c" using g cur by simp
  have newg: "node_g new = nt" and newt: "node_t new = nt" and newk: "node_key new = (nx, ny, nt)"
    using nt gc by (simp_all add: new_def new_SippNode_def node_key_def)
  have inv1: "astar_inv st1"
    unfolding astar_inv_def st1_def using o g d r newg newt
    by (auto simp: nth_append less_Suc_eq)
  have ex: "\<not> node_g new < node_g (nodes st1 ! e)" if e: "node_dict st (nx, ny, nt) = Some e" for e
  proof -
    have el: "e < length (nodes st)" and ek: "node_key (nodes st ! e) = (nx, ny, nt)"
      using d[OF e] by auto
    have "node_g (nodes st ! e) = node_t (nodes st ! e)" using g el by simp
    also have "\<dots> = nt" using ek by (simp add: node_key_def)
    finally show ?thesis using el newg by (simp add: st1_def nth_append)
  qed
  have push: "astar_inv (st1\<lparr>open_list := heappush (node_lt (nodes st1)) (open_list st1) (length (nodes st)),
                         node_dict := (node_dict st1)((nx, ny, nt) \<mapsto> length (nodes st))\<rparr>)"
  proof -
    have "set (heappush (node_lt (nodes st1)) (open_list st) (length (nodes st)))
            \<subseteq> insert (length (nodes st)) (set (open_list st))"
      by (rule heappush_set)
    then have "\<forall>a\<in>set (heappush (node_lt (nodes st1)) (open_list st) (length (nodes st))).
                 a < Suc (length (nodes st))"
      using o by (auto simp: less_Suc_eq)
    then show ?thesis
      unfolding astar_inv_def st1_def using g d r newg newt newk
      by (auto simp: nth_append less_Suc_eq)
  qed
  have pn: "process_neighbor self goal cur st (nx, ny, nt) =
        (if is_constrained (astar_constraints self) (astar_agent_id self) (nx, ny) nt then st
         else if is_edge_constrained (astar_constraints self) (astar_agent_id self)
                (node_x ?c, node_y ?c) (nx, ny) (node_t ?c) then st
         else if (nx, ny, nt) \<in> closed_set st then st1
         else (case node_dict st (nx, ny, nt) of
                 Some e \<Rightarrow> st1
               | None \<Rightarrow> st1\<lparr>open_list := heappush (node_lt (nodes st1)) (open_list st1) (length (nodes st)),
                         node_dict := (node_dict st1)((nx, ny, nt) \<mapsto> length (nodes st))\<rparr>))"
    using ex by (auto simp: process_neighbor_def Let_def st1_def new_def split: option.splits)
  show ?thesis
    unfolding pn using inv inv1 push newk by (auto simp: st1_def split: option.splits)
qed

lemma process_neighbors_inv:
  "astar_inv st \<Longrightarrow> cur < length (nodes st) \<Longrightarrow>
   \<forall>nb \<in> set nbs. snd (snd nb) = node_t (nodes st ! cur) + 1 \<Longrightarrow>
   astar_inv (foldl (process_neighbor self goal cur) st nbs)
   \<and> (\<exists>ext. nodes (foldl (process_neighbor self goal cur) st nbs) = nodes st @ ext)
   \<and> map node_key (nodes (foldl (process_neighbor self goal cur) st nbs))
       = map node_key (nodes st) @
         filter (\<lambda>(nx, ny, nt).
                   \<not> is_constrained (astar_constraints self) (astar_agent_id self) (nx, ny) nt
                   \<and> \<not> is_edge_constrained (astar_constraints self) (astar_agent_id self)
                        (node_x (nodes st ! cur), node_y (nodes st ! cur)) (nx, ny)
                        (node_t (nodes st ! cur)))
                nbs"
proof (induction nbs arbitrary: st)
  case Nil
  then show ?case by simp
next
  case (Cons nb nbs)
  obtain nx ny nt where nb: "nb = (nx, ny, nt)" by (cases nb)
  have nt: "nt = node_t (nodes st ! cur) + 1" using Cons.prems(3) nb by simp
  let ?st1 = "process_neighbor self goal cur st nb"
  from process_neighbor_inv[OF Cons.prems(1,2) nt, of self goal nx ny]
  obtain ext where i1: "astar_inv ?st1" and e1: "nodes ?st1 = nodes st @ ext"
    and k1: "map node_key (nodes ?st1) = map node_key (nodes st) @
               (if is_constrained (astar_constraints self) (astar_agent_id self) (nx, ny) nt
                   \<or> is_edge_constrained (astar_constraints self) (astar_agent_id self)
                        (node_x (nodes st ! cur), node_y (nodes st ! cur)) (nx, ny)
                        (node_t (nodes st ! cur))
                then [] else [(nx, ny, nt)])"
    using nb by auto
  have c1: "cur < length (nodes ?st1)" and n1: "nodes ?st1 ! cur = nodes st ! cur"
    using e1 Cons.prems(2) by (simp_all add: nth_append)
  have "\<forall>nb \<in> set nbs. snd (snd nb) = node_t (nodes ?st1 ! cur) + 1"
    using Cons.prems(3) n1 by simp
  from Cons.IH[OF i1 c1 this] show ?case using e1 k1 n1 nb by auto
qed

lemma get_neighbors_time: "nb \<in> set (get_neighbors e (x, y, t)) \<Longrightarrow> snd (snd nb) = t + 1"
  by (auto simp: get_neighbors_def)

lemma astar_body_inv:
  assumes inv: "astar_inv st" and ne: "open_list st \<noteq> []"
  shows "(astar_body self goal max_time st = Continue st' \<longrightarrow> astar_inv st')
       \<and> (astar_body self goal max_time st = Found st' a \<longrightarrow> astar_inv st')"
proof -
  obtain cur rest where pop: "heappop (node_lt (nodes st)) (open_list st) = (cur, rest)"
    by (cases "heappop (node_lt (nodes st)) (open_list st)")
  have cur: "cur < length (nodes st)"
    using heappop_fst[OF ne, of "node_lt (nodes st)"] pop inv by (auto simp: astar_inv_def)
  have rest: "set rest \<subseteq> set (open_list st)"
    using heappop_snd[OF ne, of "node_lt (nodes st)"] pop by simp
  let ?st1 = "st\<lparr>open_list := rest\<rparr>"
  let ?c = "nodes st ! cur"
  let ?st2 = "?st1\<lparr>closed_set := insert (node_x ?c, node_y ?c, node_t ?c) (closed_set ?st1)\<rparr>"
  have i1: "astar_inv ?st1" using inv rest by (auto simp: astar_inv_def)
  have i2: "astar_inv ?st2" using i1 by (auto simp: astar_inv_def)
  have "astar_inv (foldl (process_neighbor self goal cur) ?st2
          (get_neighbors (astar_env self) (node_x ?c, node_y ?c, node_t ?c)))"
    using process_neighbors_inv[OF i2, of cur _ self goal] cur get_neighbors_time
    by simp
  then show ?thesis using i1 pop
    by (auto simp: astar_body_def Let_def split: if_splits)
qed

lemma astar_reach_inv: "astar_reach self start goal max_time st \<Longrightarrow> astar_inv st"
proof (induction rule: astar_reach.induct)
  case reach_init
  show ?case by (rule astar_init_inv)
next
  case (reach_continue st st')
  then show ?case using astar_body_inv by blast
next
  case (reach_found st st' a)
  then show ?case using astar_body_inv by blast
qed

text \<open>
  C9. In every state that a \<open>search\<close> call reaches, every node of the store (every node
  constructed so far) has \<open>g = t\<close>; hence two nodes of the same state \<open>(x, y, t)\<close> have
  the same \<open>g\<close>, and the branch for an open-list duplicate with a strictly lower \<open>g\<close>
  has never run.
\<close>

theorem cost_equals_time:
  assumes "astar_reach self start goal max_time st"
  shows "(\<forall>n \<in> set (nodes st). node_g n = node_t n)
       \<and> (\<forall>n \<in> set (nodes st). \<forall>m \<in> set (nodes st). node_key n = node_key m \<longrightarrow> node_g n = node_g m)
       \<and> reopened st = 0"
  using astar_reach_inv[OF assms] by (auto simp: astar_inv_def node_key_def)

text \<open>The final state of a run with fuel is a reachable state.\<close>

lemma astar_loop_reach:
  "astar_reach self start goal max_time st \<Longrightarrow>
   astar_loop rfuel self goal max_time fuel st = Some (st', p) \<Longrightarrow>
   astar_reach self start goal max_time st'"
proof (induction fuel arbitrary: st)
  case 0
  then show ?case by simp
next
  case (Suc fuel)
  show ?case
  proof (cases "open_list st = []")
    case True
    then show ?thesis using Suc.prems by simp
  next
    case False
    show ?thesis
    proof (cases "astar_body self goal max_time st")
      case (Continue st1)
      then have "astar_loop rfuel self goal max_time fuel st1 = Some (st', p)"
        using Suc.prems False by simp
      from Suc.IH[OF astar_reach.reach_continue[OF Suc.prems(1) False Continue] this]
      show ?thesis .
    next
      case (Found st1 a)
      then have "st' = st1" using Suc.prems False by auto
      then show ?thesis using Suc.prems(1) False Found astar_reach.reach_found by blast
    qed
  qed
qed

lemma astar_run_reach:
  "astar_run fuel self start goal max_time = Some (st, p) \<Longrightarrow> astar_reach self start goal max_time st"
  unfolding astar_run_def using astar_loop_reach[OF astar_reach.reach_init] by blast

lemma list_all_ball: "\<forall>x \<in> set xs. P x \<Longrightarrow> list_all P xs"
  by (simp add: list_all_iff)

theorem cost_equals_time_witness:
  "astar_search 10
     \<lparr>astar_env = corridor2, astar_agent_id = 0, astar_constraints = new_ConstraintsSet\<rparr>
     (0,0) (0,1) 300 = Some [(0,0), (0,1)]
   \<and> list_all (\<lambda>n. node_g n = node_t n)
       (nodes (fst (the (astar_run 10
          \<lparr>astar_env = corridor2, astar_agent_id = 0, astar_constraints = new_ConstraintsSet\<rparr>
          (0,0) (0,1) 300))))
   \<and> reopened (fst (the (astar_run 10
          \<lparr>astar_env = corridor2, astar_agent_id = 0, astar_constraints = new_ConstraintsSet\<rparr>
          (0,0) (0,1) 300))) = 0"
proof -
  let ?A = "\<lparr>astar_env = corridor2, astar_agent_id = 0, astar_constraints = new_ConstraintsSet\<rparr>"
  have s: "astar_search 10 ?A (0,0) (0,1) 300 = Some [(0,0), (0,1)]"
    by code_simp
  then obtain st where run: "astar_run 10 ?A (0,0) (0,1) 300 = Some (st, [(0,0), (0,1)])"
    by (auto simp: astar_search_def)
  have "astar_reach ?A (0,0) (0,1) 300 st" using astar_run_reach[OF run] .
  from cost_equals_time[OF this] show ?thesis using s run by (simp add: list_all_iff)
qed

text \<open>
  C5, as the code has it. One iteration that goes on from a reachable state constructs
  a node for exactly these neighbours \<open>(cell', t + 1)\<close> of the popped node \<open>(cell, t)\<close>,
  in the order of \<open>get_neighbors\<close>: none when \<open>t \<ge> max_time\<close>; otherwise those with no
  vertex constraint \<open>(agent, cell', t + 1)\<close> and no edge constraint
  \<open>(agent, cell, cell', t)\<close>. The edge constraint is looked up with the departure time
  \<open>t\<close>, and for the wait move too.
\<close>

theorem expansion_gates:
  assumes reach: "astar_reach self start goal max_time st"
    and ne: "open_list st \<noteq> []"
    and body: "astar_body self goal max_time st = Continue st'"
  shows "map node_key (drop (length (nodes st)) (nodes st')) =
     (let c = nodes st ! fst (heappop (node_lt (nodes st)) (open_list st))
      in if node_t c \<ge> max_time then []
         else filter (\<lambda>(nx, ny, nt).
                 (astar_agent_id self, (nx, ny), node_t c + 1) \<notin> vertex_constraints (astar_constraints self)
                 \<and> (astar_agent_id self, ((node_x c, node_y c), (nx, ny)), node_t c)
                       \<notin> edge_constraints (astar_constraints self))
               (get_neighbors (astar_env self) (node_x c, node_y c, node_t c)))"
proof -
  have inv: "astar_inv st" using astar_reach_inv[OF reach] .
  obtain cur rest where pop: "heappop (node_lt (nodes st)) (open_list st) = (cur, rest)"
    by (cases "heappop (node_lt (nodes st)) (open_list st)")
  have cur: "cur < length (nodes st)"
    using heappop_fst[OF ne, of "node_lt (nodes st)"] pop inv by (auto simp: astar_inv_def)
  let ?c = "nodes st ! cur"
  let ?nbs = "get_neighbors (astar_env self) (node_x ?c, node_y ?c, node_t ?c)"
  let ?st2 = "st\<lparr>open_list := rest,
                 closed_set := insert (node_x ?c, node_y ?c, node_t ?c) (closed_set st)\<rparr>"
  have i2: "astar_inv ?st2"
    using inv heappop_snd[OF ne, of "node_lt (nodes st)"] pop by (auto simp: astar_inv_def)
  have t: "\<forall>nb \<in> set ?nbs. snd (snd nb) = node_t (nodes ?st2 ! cur) + 1"
    using get_neighbors_time by simp
  have c2: "cur < length (nodes ?st2)" using cur by simp
  from process_neighbors_inv[OF i2 c2 t, of self goal]
  have k: "map node_key (nodes (foldl (process_neighbor self goal cur) ?st2 ?nbs))
       = map node_key (nodes st) @
         filter (\<lambda>(nx, ny, nt).
                   \<not> is_constrained (astar_constraints self) (astar_agent_id self) (nx, ny) nt
                   \<and> \<not> is_edge_constrained (astar_constraints self) (astar_agent_id self)
                        (node_x ?c, node_y ?c) (nx, ny) (node_t ?c))
                ?nbs"
    by simp
  have f: "filter (\<lambda>(nx, ny, nt).
                   \<not> is_constrained (astar_constraints self) (astar_agent_id self) (nx, ny) nt
                   \<and> \<not> is_edge_constrained (astar_constraints self) (astar_agent_id self)
                        (node_x ?c, node_y ?c) (nx, ny) (node_t ?c)) ?nbs
         = filter (\<lambda>(nx, ny, nt).
                 (astar_agent_id self, (nx, ny), node_t ?c + 1) \<notin> vertex_constraints (astar_constraints self)
                 \<and> (astar_agent_id self, ((node_x ?c, node_y ?c), (nx, ny)), node_t ?c)
                       \<notin> edge_constraints (astar_constraints self)) ?nbs"
    by (rule filter_cong)
       (auto simp: is_constrained_def is_edge_constrained_def new_EdgeConstraint_def
             dest: get_neighbors_time)
  show ?thesis
  proof (cases "node_t ?c \<ge> max_time")
    case True
    then have "nodes st' = nodes st"
      using body pop by (auto simp: astar_body_def Let_def split: if_splits)
    then show ?thesis using True pop by (simp add: Let_def)
  next
    case False
    then have "st' = foldl (process_neighbor self goal cur) ?st2 ?nbs"
      using body pop by (auto simp: astar_body_def Let_def split: if_splits)
    then have "map node_key (nodes st') = map node_key (nodes st) @
         filter (\<lambda>(nx, ny, nt).
                   \<not> is_constrained (astar_constraints self) (astar_agent_id self) (nx, ny) nt
                   \<and> \<not> is_edge_constrained (astar_constraints self) (astar_agent_id self)
                        (node_x ?c, node_y ?c) (nx, ny) (node_t ?c))
                ?nbs"
      using k by simp
    then have "drop (length (nodes st)) (map node_key (nodes st')) =
         filter (\<lambda>(nx, ny, nt).
                   \<not> is_constrained (astar_constraints self) (astar_agent_id self) (nx, ny) nt
                   \<and> \<not> is_edge_constrained (astar_constraints self) (astar_agent_id self)
                        (node_x ?c, node_y ?c) (nx, ny) (node_t ?c))
                ?nbs"
      by simp
    then have "map node_key (drop (length (nodes st)) (nodes st')) =
         filter (\<lambda>(nx, ny, nt).
                   \<not> is_constrained (astar_constraints self) (astar_agent_id self) (nx, ny) nt
                   \<and> \<not> is_edge_constrained (astar_constraints self) (astar_agent_id self)
                        (node_x ?c, node_y ?c) (nx, ny) (node_t ?c))
                ?nbs"
      by (simp only: drop_map)
    also note f
    finally show ?thesis using False by (simp add: pop Let_def)
  qed
qed


theorem expansion_gates_witness:
  "(case astar_body
           \<lparr>astar_env = corridor2, astar_agent_id = 0,
            astar_constraints =
              add_edge_constraint new_ConstraintsSet (new_EdgeConstraint 0 (0,0) (0,1) 0)\<rparr>
           (0,1) 300 (astar_init (0,0) (0,1)) of
      Continue st' \<Rightarrow> map node_key (drop 1 (nodes st')) = [(0, 0, 1)]
    | Found st' a \<Rightarrow> False)"
proof -
  let ?A = "\<lparr>astar_env = corridor2, astar_agent_id = 0,
            astar_constraints =
              add_edge_constraint new_ConstraintsSet (new_EdgeConstraint 0 (0,0) (0,1) 0)\<rparr>"
  let ?st = "astar_init (0,0) (0,1)"
  have c: "(case astar_body ?A (0,1) 300 ?st of Continue st' \<Rightarrow> True | Found st' a \<Rightarrow> False)"
    by code_simp
  have ne: "open_list ?st \<noteq> []" by (simp add: astar_init_def Let_def)
  have len: "length (nodes ?st) = 1" by (simp add: astar_init_def Let_def)
  have rhs: "(let c = nodes ?st ! fst (heappop (node_lt (nodes ?st)) (open_list ?st))
      in if node_t c \<ge> 300 then []
         else filter (\<lambda>(nx, ny, nt).
                 (astar_agent_id ?A, (nx, ny), node_t c + 1) \<notin> vertex_constraints (astar_constraints ?A)
                 \<and> (astar_agent_id ?A, ((node_x c, node_y c), (nx, ny)), node_t c)
                       \<notin> edge_constraints (astar_constraints ?A))
               (get_neighbors (astar_env ?A) (node_x c, node_y c, node_t c))) = [(0, 0, 1)]"
    by code_simp
  show ?thesis
  proof (cases "astar_body ?A (0,1) 300 ?st")
    case (Continue st')
    from expansion_gates[OF astar_reach.reach_init ne Continue]
    show ?thesis unfolding Continue using rhs len by simp
  next
    case (Found st' a)
    then show ?thesis using c by simp
  qed
qed

text \<open>
  C5 as stated fails. With the edge constraint \<open>(0, (0,0), (0,1), 1)\<close>, the claim forbids
  the move from \<open>((0,0), 0)\<close> to \<open>((0,1), 1)\<close>, whose arrival time is 1; the search makes the
  move and returns the two-cell plan. The same constraint with time 0, the departure
  time, does forbid the move: the plan waits one step.
\<close>

theorem edge_constraint_tested_at_departure:
  "astar_search 10
     \<lparr>astar_env = corridor2, astar_agent_id = 0,
      astar_constraints = add_edge_constraint new_ConstraintsSet (new_EdgeConstraint 0 (0,0) (0,1) 1)\<rparr>
     (0,0) (0,1) 300 = Some [(0,0), (0,1)]
  \<and> astar_search 10
     \<lparr>astar_env = corridor2, astar_agent_id = 0,
      astar_constraints = add_edge_constraint new_ConstraintsSet (new_EdgeConstraint 0 (0,0) (0,1) 0)\<rparr>
     (0,0) (0,1) 300 = Some [(0,0), (0,0), (0,1)]"
  by code_simp

section \<open>Validity of the returned plan: results\<close>

lemma foldl_max_ge: "(x::nat) \<le> foldl max x xs \<and> (\<forall>y \<in> set xs. y \<le> foldl max x xs)"
proof (induction xs arbitrary: x)
  case Nil
  show ?case by simp
next
  case (Cons a xs)
  from Cons[of "max x a"] show ?case by auto
qed

lemma py_max_ge: "py_max xs = Inr (m::nat) \<Longrightarrow> \<forall>x \<in> set xs. x \<le> m"
  using foldl_max_ge by (cases xs) auto

lemma extend_paths_eq:
  "extend_paths m sols = Inr ext \<Longrightarrow>
   ext = map (\<lambda>(a, p). (a, p @ replicate (m - length p) (last p))) sols
   \<and> (\<forall>(a, p) \<in> set sols. length p < m \<longrightarrow> p \<noteq> [])"
proof (induction sols arbitrary: ext)
  case Nil
  then show ?case by simp
next
  case (Cons ap sols)
  obtain a p where ap: "ap = (a, p)" by (cases ap)
  from Cons.prems obtain ep r where ep: "extend_path m p = Inr ep"
    and r: "extend_paths m sols = Inr r" and ext: "ext = (a, ep) # r"
    by (auto simp: ap split: sum.splits)
  have "ep = p @ replicate (m - length p) (last p) \<and> (length p < m \<longrightarrow> p \<noteq> [])"
    using ep by (auto simp: extend_path_def split: if_splits list.splits)
  then show ?case using Cons.IH[OF r] ext ap by simp
qed

lemma pad_nth:
  "t < m \<Longrightarrow> length p \<le> m \<Longrightarrow> (length p < m \<longrightarrow> p \<noteq> []) \<Longrightarrow>
   (p @ replicate (m - length p) (last p)) ! t = pos_at p t"
  by (simp add: nth_append pos_at_def)

lemma pairs_after_nth:
  "i < j \<Longrightarrow> j < length xs \<Longrightarrow> (xs ! i, xs ! j) \<in> set (pairs_after xs)"
proof (induction xs arbitrary: i j)
  case Nil
  then show ?case by simp
next
  case (Cons x xs)
  obtain j' where j: "j = Suc j'" using Cons.prems(1) by (cases j) auto
  show ?case
  proof (cases i)
    case 0
    then show ?thesis using j Cons.prems by simp
  next
    case (Suc i')
    then have "(xs ! i', xs ! j') \<in> set (pairs_after xs)"
      using Cons.IH[of i' j'] Cons.prems j by simp
    then show ?thesis using Suc j by simp
  qed
qed

lemma no_conflicts_index:
  assumes fc: "find_conflicts sols = Inr []" and d: "distinct (map fst sols)"
    and ij: "i < j" "j < length sols" and t: "t < plan_length sols"
  shows "pos_at (snd (sols ! i)) t \<noteq> pos_at (snd (sols ! j)) t
       \<and> (0 < t \<longrightarrow> \<not> (pos_at (snd (sols ! i)) (t - 1) = pos_at (snd (sols ! j)) t
                       \<and> pos_at (snd (sols ! j)) (t - 1) = pos_at (snd (sols ! i)) t))"
proof -
  obtain m ext where pm: "py_max (map (\<lambda>(a, p). length p) sols) = Inr m"
    and ex: "extend_paths m sols = Inr ext"
    and cc: "concat (map (conflicts_at ext) [0 ..< m]) = []"
    using fc by (auto simp: find_conflicts_def split: sum.splits)
  have m: "plan_length sols = m" using pm by (simp add: plan_length_def)
  have tm: "t < m" using t m by simp
  let ?pad = "\<lambda>p. p @ replicate (m - length p) (last p)"
  have ext: "ext = map (\<lambda>(a, p). (a, ?pad p)) sols"
    and ne: "\<forall>(a, p) \<in> set sols. length p < m \<longrightarrow> p \<noteq> []"
    using extend_paths_eq[OF ex] by auto
  have le: "\<forall>(a, p) \<in> set sols. length p \<le> m"
    using py_max_ge[OF pm] by auto
  have padlen: "length (?pad p) = m" if "(a, p) \<in> set sols" for a p
    using le that by auto
  have padnth: "?pad p ! s = pos_at p s" if "(a, p) \<in> set sols" "s < m" for a p s
    using pad_nth[of s m p] le ne that by auto
  have pos: "positions_at t ext = map (\<lambda>(a, p). (a, pos_at p t)) sols"
  proof -
    have "filter (\<lambda>(a, p). t < length p) ext = ext"
      using padlen tm by (auto simp: ext filter_id_conv)
    then show ?thesis
      using padnth tm by (auto simp: positions_at_def ext)
  qed
  obtain a p where i: "sols ! i = (a, p)" by (cases "sols ! i")
  obtain b q where j: "sols ! j = (b, q)" by (cases "sols ! j")
  have ai: "(a, p) \<in> set sols" and bj: "(b, q) \<in> set sols"
    using ij i j nth_mem[of i sols] nth_mem[of j sols] by auto
  have pr: "((a, pos_at p t), (b, pos_at q t)) \<in> set (pairs_after (positions_at t ext))"
    using pairs_after_nth[OF ij(1), of "map (\<lambda>(a, p). (a, pos_at p t)) sols"] ij i j
    by (simp add: pos)
  have empty: "conflicts_at ext t = []" using cc tm by simp
  have v: "pos_at p t \<noteq> pos_at q t"
    using empty pr by (auto simp: conflicts_at_def vertex_conflicts_at_def Let_def filter_empty_conv)
  have dext: "distinct (map fst ext)"
    using d by (simp add: ext comp_def case_prod_beta)
  have get: "dict_get ext c = ?pad r" if "(c, r) \<in> set sols" for c r
  proof -
    have "(c, ?pad r) \<in> set ext" using that by (auto simp: ext)
    then have "map_of ext c = Some (?pad r)" using dext by simp
    then show ?thesis by (simp add: dict_get_def)
  qed
  have prev: "prev_pos ext c t x = pos_at r (t - 1)" if "(c, r) \<in> set sols" for c r x
  proof -
    have "t - 1 < m" using tm by simp
    then show ?thesis
      using get[OF that] padlen[OF that] padnth[OF that, of "t - 1"]
      by (simp add: prev_pos_def)
  qed
  have e: "\<not> (pos_at p (t - 1) = pos_at q t \<and> pos_at q (t - 1) = pos_at p t)" if "0 < t"
  proof
    assume sw: "pos_at p (t - 1) = pos_at q t \<and> pos_at q (t - 1) = pos_at p t"
    have ef: "filter (\<lambda>((agent1, pos1), (agent2, pos2)).
                       prev_pos ext agent1 t pos1 = pos2 \<and> prev_pos ext agent2 t pos2 = pos1)
                    (pairs_after (positions_at t ext)) = []"
      using empty that by (simp add: conflicts_at_def edge_conflicts_at_def Let_def)
    have "prev_pos ext a t (pos_at p t) = pos_at q t \<and> prev_pos ext b t (pos_at q t) = pos_at p t"
      using prev[OF ai, of "pos_at p t"] prev[OF bj, of "pos_at q t"] sw by simp
    moreover have "\<not> (prev_pos ext a t (pos_at p t) = pos_at q t
                     \<and> prev_pos ext b t (pos_at q t) = pos_at p t)"
      using bspec[OF ef[unfolded filter_empty_conv] pr] by simp
    ultimately show False by blast
  qed
  show ?thesis using v e i j by simp
qed

lemma no_conflicts_valid:
  assumes fc: "find_conflicts sols = Inr []" and d: "distinct (map fst sols)"
  shows "valid_joint_plan sols"
proof -
  have main: "pos_at p t \<noteq> pos_at q t \<and>
       (0 < t \<longrightarrow> \<not> (pos_at p (t - 1) = pos_at q t \<and> pos_at q (t - 1) = pos_at p t))"
    if ap: "(a, p) \<in> set sols" and bq: "(b, q) \<in> set sols" and ab: "a \<noteq> b"
      and t: "t < plan_length sols" for a p b q t
  proof -
    obtain i where i: "i < length sols" "sols ! i = (a, p)"
      using ap by (auto simp: in_set_conv_nth)
    obtain j where j: "j < length sols" "sols ! j = (b, q)"
      using bq by (auto simp: in_set_conv_nth)
    have "i \<noteq> j" using i j ab by auto
    then consider "i < j" | "j < i" by linarith
    then show ?thesis
    proof cases
      case 1
      from no_conflicts_index[OF fc d 1 j(1) t] i j show ?thesis by simp
    next
      case 2
      from no_conflicts_index[OF fc d 2 i(1) t] i j show ?thesis by auto
    qed
  qed
  show ?thesis unfolding valid_joint_plan_def using main by blast
qed


lemma dict_set_key_list:
  "map fst (dict_set d k v) = (if k \<in> fst ` set d then map fst d else map fst d @ [k])"
proof (induction d)
  case Nil
  show ?case by simp
next
  case (Cons kv d)
  obtain k' v' where kv: "kv = (k', v')" by (cases kv)
  show ?case using Cons.IH by (cases "k' = k") (auto simp: kv)
qed

lemma dict_set_distinct:
  "distinct (map fst d) \<Longrightarrow> distinct (map fst (dict_set d k v))"
  by (auto simp: dict_set_key_list)

lemma find_initial_distinct:
  "find_initial_solutions fuel env config cs agents sols = Some (agents', sols') \<Longrightarrow>
   distinct (map fst sols) \<Longrightarrow> distinct (map fst sols')"
proof (induction agents arbitrary: sols agents' sols')
  case Nil
  then show ?case by simp
next
  case (Cons agent rest)
  obtain p where p: "astar_search fuel
        \<lparr>astar_env = env, astar_agent_id = agent_id agent, astar_constraints = cs\<rparr>
        (agent_start agent) (agent_goal agent) (MAX_TIME_STEPS config) = Some p"
    using Cons.prems by (auto split: option.splits)
  show ?case
  proof (cases "p = []")
    case True
    then obtain rest' where "find_initial_solutions fuel env config cs rest sols = Some (rest', sols')"
      using Cons.prems p by (auto split: option.splits)
    from Cons.IH[OF this Cons.prems(2)] show ?thesis .
  next
    case False
    then obtain rest' where "find_initial_solutions fuel env config cs rest
        (dict_set sols (agent_id agent) p) = Some (rest', sols')"
      using Cons.prems p by (auto split: option.splits)
    from Cons.IH[OF this dict_set_distinct[OF Cons.prems(2)]] show ?thesis .
  qed
qed

lemma replan_distinct:
  "replan_agent fuel env config agents a node = Some (Inr (agents', node')) \<Longrightarrow>
   distinct (map fst (cbs_solutions node)) \<Longrightarrow> distinct (map fst (cbs_solutions node'))"
  by (auto simp: replan_agent_def Let_def dict_set_distinct
      split: sum.splits option.splits if_splits)

lemma expand_ok:
  "expand_children fuel env config cur conflict agents ol as = Some (agents', r) \<Longrightarrow>
   distinct (map fst (cbs_solutions cur)) \<Longrightarrow> \<forall>n \<in> set ol. node_ok n \<Longrightarrow>
   (case r of
      Inl (Conflict_free s) \<Rightarrow> distinct (map fst s) \<and> find_conflicts s = Inr []
    | Inl _ \<Rightarrow> True
    | Inr ol' \<Rightarrow> \<forall>n \<in> set ol'. node_ok n)"
proof (induction as arbitrary: agents ol)
  case Nil
  then show ?case by auto
next
  case (Cons a as)
  let ?nn = "\<lparr>cbs_constraints = child_constraints (cbs_constraints cur) conflict a,
              cbs_solutions = cbs_solutions cur, cbs_cost = 0, cbs_conflicts = []\<rparr>"
  show ?case
  proof (cases "replan_agent fuel env config agents a ?nn")
    case None
    then show ?thesis using Cons.prems by simp
  next
    case (Some res)
    show ?thesis
    proof (cases res)
      case (Inl e)
      then show ?thesis using Cons.prems Some by auto
    next
      case (Inr pr)
      obtain ags1 node1 where pr: "pr = (ags1, node1)" by (cases pr)
      have d1: "distinct (map fst (cbs_solutions node1))"
        using replan_distinct[of fuel env config agents a ?nn ags1 node1] Some Inr pr Cons.prems(2)
        by simp
      show ?thesis
      proof (cases "find_conflicts (cbs_solutions node1)")
        case (Inl e)
        then show ?thesis using Cons.prems Some \<open>res = Inr pr\<close> pr by (auto simp: Let_def)
      next
        case fc: (Inr confs)
        show ?thesis
        proof (cases "confs = []")
          case True
          then show ?thesis using Cons.prems(1) Some \<open>res = Inr pr\<close> pr d1 fc
            by (auto simp: Let_def)
        next
          case False
          let ?child = "node1\<lparr>cbs_cost := calculate_solution_cost (cbs_solutions node1),
                           cbs_conflicts := confs\<rparr>"
          have rec: "expand_children fuel env config cur conflict ags1
                 (heappush cbs_lt ol ?child) as = Some (agents', r)"
            using Cons.prems(1) Some \<open>res = Inr pr\<close> pr fc False by (simp add: Let_def)
          have "node_ok ?child" using d1 fc by (simp add: node_ok_def)
          then have "\<forall>n \<in> set (heappush cbs_lt ol ?child). node_ok n"
            using Cons.prems(3) heappush_set[of cbs_lt ol ?child] by auto
          from Cons.IH[OF rec Cons.prems(2) this] show ?thesis .
        qed
      qed
    qed
  qed
qed

lemma cbs_loop_ok:
  "cbs_loop fuel env config agents ol iteration = Some (agents', Conflict_free s) \<Longrightarrow>
   \<forall>n \<in> set ol. node_ok n \<Longrightarrow>
   distinct (map fst s) \<and> find_conflicts s = Inr []"
proof (induction fuel env config agents ol iteration rule: cbs_loop.induct)
  case (1 fuel env config agents ol iteration)
  show ?case
  proof (cases "ol \<noteq> [] \<and> iteration < CBS_MAX_ITERATIONS config")
    case False
    then show ?thesis using "1.prems" by (subst (asm) cbs_loop.simps) auto
  next
    case True
    obtain cur ol1 where pop: "heappop cbs_lt ol = (cur, ol1)" by (cases "heappop cbs_lt ol")
    have curok: "node_ok cur"
      using heappop_fst[of ol cbs_lt] True pop "1.prems"(2) by auto
    have ol1ok: "\<forall>n \<in> set ol1. node_ok n"
      using heappop_snd[of ol cbs_lt] True pop "1.prems"(2) by auto
    show ?thesis
    proof (cases "cbs_conflicts cur")
      case Nil
      then have "s = cbs_solutions cur"
        using "1.prems"(1) True pop by (subst (asm) cbs_loop.simps) simp
      then show ?thesis using curok Nil by (simp add: node_ok_def)
    next
      case (Cons conflict cs)
      let ?e = "expand_children fuel env config cur conflict agents ol1
                        [conflict_agent1 conflict, conflict_agent2 conflict]"
      show ?thesis
      proof (cases ?e)
        case None
        then show ?thesis using "1.prems"(1) True pop Cons by (subst (asm) cbs_loop.simps) simp
      next
        case (Some res)
        obtain ags1 r where res: "res = (ags1, r)" by (cases res)
        have ek: "case r of
              Inl (Conflict_free s) \<Rightarrow> distinct (map fst s) \<and> find_conflicts s = Inr []
            | Inl _ \<Rightarrow> True
            | Inr ol' \<Rightarrow> \<forall>n \<in> set ol'. node_ok n"
          using expand_ok[OF Some[unfolded res] _ ol1ok] curok by (simp add: node_ok_def)
        show ?thesis
        proof (cases r)
          case (Inl x)
          then have "x = Conflict_free s"
            using "1.prems"(1) True pop Cons Some res by (subst (asm) cbs_loop.simps) simp
          then show ?thesis using ek Inl by simp
        next
          case (Inr ol2)
          then have rec: "cbs_loop fuel env config ags1 ol2 (iteration + 1) = Some (agents', Conflict_free s)"
            using "1.prems"(1) True pop Cons Some res by (subst (asm) cbs_loop.simps) simp
          have "\<forall>n \<in> set ol2. node_ok n" using ek Inr by simp
          from "1.IH"[OF True pop[symmetric] Cons Some[unfolded res Inr] refl refl rec this]
          show ?thesis .
        qed
      qed
    qed
  qed
qed

text \<open>
  C1, as the code has it. \<open>search\<close> has no status: it returns a dictionary. When it
  returns through one of the two \<open>return\<close> statements inside the loop (lines 77 and 116,
  both behind the test that the node has no conflicts), the returned joint plan is valid:
  no two distinct agents share a cell at any time of the padded plan, and no two swap
  cells between consecutive times.
\<close>

theorem conflict_free_exit_is_valid:
  assumes "search_exit fuel env config agents = Some (agents', Conflict_free sols)"
  shows "search fuel env config agents = Some (agents', Inr sols) \<and> valid_joint_plan sols"
proof -
  obtain ags1 root_sols where fi:
    "find_initial_solutions fuel env config new_ConstraintsSet agents [] = Some (ags1, root_sols)"
    using assms by (auto simp: search_exit_def split: option.splits)
  have d: "distinct (map fst root_sols)" using find_initial_distinct[OF fi] by simp
  obtain confs where fc: "find_conflicts root_sols = Inr confs"
    using assms fi by (auto simp: search_exit_def split: sum.splits)
  let ?root = "\<lparr>cbs_constraints = new_ConstraintsSet, cbs_solutions = root_sols,
                  cbs_cost = calculate_solution_cost root_sols, cbs_conflicts = confs\<rparr>"
  have loop: "cbs_loop fuel env config ags1 [?root] 0 = Some (agents', Conflict_free sols)"
    using assms fi fc by (simp add: search_exit_def Let_def)
  have "\<forall>n \<in> set [?root]. node_ok n" using d fc by (simp add: node_ok_def)
  from cbs_loop_ok[OF loop this] no_conflicts_valid
  have "valid_joint_plan sols" by blast
  then show ?thesis using assms by (simp add: search_def)
qed

lemma square2_exit:
  "search_exit 10 square2 \<lparr>MAX_TIME_STEPS = 4, CBS_MAX_ITERATIONS = 1000\<rparr>
      [new_Agent 0 (0,0) (1,1), new_Agent 1 (0,1) (0,0)]
   = Some ([(new_Agent 0 (0,0) (1,1))\<lparr>agent_path := [(0,0), (1,0), (1,1)], agent_cost := 2\<rparr>,
            (new_Agent 1 (0,1) (0,0))\<lparr>agent_path := [(0,1), (0,0)], agent_cost := 1\<rparr>],
           Conflict_free [(0, [(0,0), (1,0), (1,1)]), (1, [(0,1), (0,0)])])"
  by code_simp

theorem conflict_free_exit_is_valid_witness:
  "search 10 square2 \<lparr>MAX_TIME_STEPS = 4, CBS_MAX_ITERATIONS = 1000\<rparr>
      [new_Agent 0 (0,0) (1,1), new_Agent 1 (0,1) (0,0)]
   = Some ([(new_Agent 0 (0,0) (1,1))\<lparr>agent_path := [(0,0), (1,0), (1,1)], agent_cost := 2\<rparr>,
            (new_Agent 1 (0,1) (0,0))\<lparr>agent_path := [(0,1), (0,0)], agent_cost := 1\<rparr>],
           Inr [(0, [(0,0), (1,0), (1,1)]), (1, [(0,1), (0,0)])])
   \<and> valid_joint_plan [(0, [(0,0), (1,0), (1,1)]), (1, [(0,1), (0,0)])]"
  using conflict_free_exit_is_valid[OF square2_exit] .

text \<open>
  C1 as stated fails for the third \<open>return\<close> (lines 122 to 124): when the iteration budget
  is used up, \<open>search\<close> returns the plans of the cheapest open node. For the two agents
  that swap the cells of the corridor and a budget of one iteration, it returns the plans
  in which the agents swap cells between times 0 and 1.
\<close>

theorem search_returns_conflicting_plan:
  "search 10 corridor2 \<lparr>MAX_TIME_STEPS = 3, CBS_MAX_ITERATIONS = 1\<rparr>
      [new_Agent 0 (0,0) (0,1), new_Agent 1 (0,1) (0,0)]
     = Some ([(new_Agent 0 (0,0) (0,1))\<lparr>agent_path := [(0,0), (0,0), (0,1)], agent_cost := 2\<rparr>,
              (new_Agent 1 (0,1) (0,0))\<lparr>agent_path := [(0,1), (0,0)], agent_cost := 1\<rparr>],
             Inr [(0, [(0,0), (0,1)]), (1, [(0,1), (0,0)])])
   \<and> \<not> valid_joint_plan [(0, [(0,0), (0,1)]), (1, [(0,1), (0,0)])]"
proof -
  have "search 10 corridor2 \<lparr>MAX_TIME_STEPS = 3, CBS_MAX_ITERATIONS = 1\<rparr>
      [new_Agent 0 (0,0) (0,1), new_Agent 1 (0,1) (0,0)]
     = Some ([(new_Agent 0 (0,0) (0,1))\<lparr>agent_path := [(0,0), (0,0), (0,1)], agent_cost := 2\<rparr>,
              (new_Agent 1 (0,1) (0,0))\<lparr>agent_path := [(0,1), (0,0)], agent_cost := 1\<rparr>],
             Inr [(0, [(0,0), (0,1)]), (1, [(0,1), (0,0)])])"
    by code_simp
  moreover have "\<not> valid_joint_plan [(0, [(0,0), (0,1)]), (1, [(0,1), (0,0)])]"
    by (simp add: valid_joint_plan_def plan_length_def pos_at_def lessThan_Suc)
  ultimately show ?thesis by simp
qed

section \<open>Order of the conflict scan: results\<close>

lemma pairs_after_set:
  "q \<in> set (pairs_after xs) \<Longrightarrow> fst q \<in> set xs \<and> snd q \<in> set xs"
  by (induction xs) auto

lemma pairs_after_sorted:
  "sorted_wrt (\<lambda>x y. K (fst x) (fst y)) xs \<Longrightarrow>
   sorted_wrt (\<lambda>p q. K (fst (fst p)) (fst (fst q))
                    \<or> (fst (fst p) = fst (fst q) \<and> K (fst (snd p)) (fst (snd q))))
     (pairs_after xs)"
proof (induction xs)
  case Nil
  show ?case by simp
next
  case (Cons x xs)
  have hd: "\<forall>y \<in> set xs. K (fst x) (fst y)" and tl: "sorted_wrt (\<lambda>x y. K (fst x) (fst y)) xs"
    using Cons.prems by simp_all
  have first: "sorted_wrt (\<lambda>p q. K (fst (fst p)) (fst (fst q))
                    \<or> (fst (fst p) = fst (fst q) \<and> K (fst (snd p)) (fst (snd q))))
                 (map (Pair x) xs)"
    unfolding sorted_wrt_map using tl by (rule sorted_wrt_mono_rel[rotated]) simp
  have cross: "\<forall>p \<in> set (map (Pair x) xs). \<forall>q \<in> set (pairs_after xs).
          K (fst (fst p)) (fst (fst q))
          \<or> (fst (fst p) = fst (fst q) \<and> K (fst (snd p)) (fst (snd q)))"
    using hd pairs_after_set by fastforce
  show ?case using first Cons.IH[OF tl] cross by (simp add: sorted_wrt_append)
qed

lemma conflicts_of_pairs_sorted:
  assumes pos: "sorted_wrt (\<lambda>x y. K (fst x) (fst y)) positions"
    and mk: "\<And>pr. conflict_time (mk pr) = T \<and> type_order (mk pr) = ty
                 \<and> conflict_agent1 (mk pr) = fst (fst pr) \<and> conflict_agent2 (mk pr) = fst (snd pr)"
  shows "sorted_wrt (scan_before K) (map mk (filter P (pairs_after positions)))"
proof -
  let ?R = "\<lambda>p q. K (fst (fst p)) (fst (fst q))
                    \<or> (fst (fst p) = fst (fst q) \<and> K (fst (snd p)) (fst (snd q)))"
  have "sorted_wrt ?R (filter P (pairs_after positions))"
    using pairs_after_sorted[OF pos] by (rule sorted_wrt_filter)
  then have "sorted_wrt (\<lambda>a b. scan_before K (mk a) (mk b)) (filter P (pairs_after positions))"
    by (rule sorted_wrt_mono_rel[rotated]) (simp add: scan_before_def mk)
  then show ?thesis by (simp add: sorted_wrt_map)
qed

lemma vertex_conflicts_sorted:
  "sorted_wrt (\<lambda>x y. K (fst x) (fst y)) positions \<Longrightarrow>
   sorted_wrt (scan_before K) (vertex_conflicts_at t positions)"
  unfolding vertex_conflicts_at_def
  by (rule conflicts_of_pairs_sorted[where T = "int t" and ty = 0])
     (auto simp: type_order_def)

lemma edge_conflicts_sorted:
  "sorted_wrt (\<lambda>x y. K (fst x) (fst y)) positions \<Longrightarrow>
   sorted_wrt (scan_before K) (edge_conflicts_at ext t positions)"
proof (cases "t > 0")
  case False
  then show ?thesis by (simp add: edge_conflicts_at_def)
next
  case True
  assume "sorted_wrt (\<lambda>x y. K (fst x) (fst y)) positions"
  then have "sorted_wrt (scan_before K)
     (map (\<lambda>((agent1, pos1), (agent2, pos2)).
               \<lparr>conflict_agent1 = agent1, conflict_agent2 = agent2, conflict_position = pos1,
                conflict_time = int t, conflict_type = ''edge''\<rparr>)
            (filter (\<lambda>((agent1, pos1), (agent2, pos2)).
                       prev_pos ext agent1 t pos1 = pos2 \<and> prev_pos ext agent2 t pos2 = pos1)
                    (pairs_after positions)))"
    by (rule conflicts_of_pairs_sorted[where T = "int t" and ty = 1])
       (auto simp: type_order_def)
  then show ?thesis using True by (simp add: edge_conflicts_at_def)
qed

lemma vertex_conflicts_tag:
  "c \<in> set (vertex_conflicts_at t positions) \<Longrightarrow> conflict_time c = int t \<and> type_order c = 0"
  by (auto simp: vertex_conflicts_at_def type_order_def)

lemma edge_conflicts_tag:
  "c \<in> set (edge_conflicts_at ext t positions) \<Longrightarrow>
   conflict_time c = int t \<and> type_order c = 1 \<and> 0 < t"
  by (auto simp: edge_conflicts_at_def type_order_def split: if_splits)

lemma conflicts_at_sorted:
  assumes "sorted_wrt (\<lambda>x y. K (fst x) (fst y)) (positions_at t ext)"
  shows "sorted_wrt (scan_before K) (conflicts_at ext t)"
  unfolding conflicts_at_def Let_def sorted_wrt_append
  using vertex_conflicts_sorted[OF assms] edge_conflicts_sorted[OF assms]
  by (auto simp: scan_before_def dest!: vertex_conflicts_tag edge_conflicts_tag)

lemma conflicts_at_time: "c \<in> set (conflicts_at ext t) \<Longrightarrow> conflict_time c = int t"
  by (auto simp: conflicts_at_def Let_def dest: vertex_conflicts_tag edge_conflicts_tag)

lemma scan_sorted:
  assumes "\<And>t. t < m \<Longrightarrow> sorted_wrt (scan_before K) (conflicts_at ext t)"
  shows "sorted_wrt (scan_before K) (concat (map (conflicts_at ext) [0 ..< m]))"
  using assms
proof (induction m)
  case 0
  show ?case by simp
next
  case (Suc m)
  have "\<forall>c \<in> set (concat (map (conflicts_at ext) [0 ..< m])). \<forall>d \<in> set (conflicts_at ext m).
          scan_before K c d"
    by (auto simp: scan_before_def dest!: conflicts_at_time)
  then show ?case using Suc by (simp add: sorted_wrt_append)
qed

lemma positions_at_keys_sorted:
  assumes "sorted_wrt K (map fst ext)"
  shows "sorted_wrt (\<lambda>x y. K (fst x) (fst y)) (positions_at t ext)"
proof -
  have "sorted_wrt (\<lambda>x y. K (fst x) (fst y)) (filter (\<lambda>(a, p). t < length p) ext)"
    using assms unfolding sorted_wrt_map by (rule sorted_wrt_filter)
  then show ?thesis
    unfolding positions_at_def sorted_wrt_map
    by (rule sorted_wrt_mono_rel[rotated]) auto
qed

lemma extend_paths_keys: "extend_paths m sols = Inr ext \<Longrightarrow> map fst ext = map fst sols"
  using extend_paths_eq[of m sols ext] by (auto simp: comp_def case_prod_beta)

lemma find_conflicts_sorted:
  assumes "find_conflicts sols = Inr cs" and "sorted_wrt K (map fst sols)"
  shows "sorted_wrt (scan_before K) cs"
proof -
  obtain m ext where ex: "extend_paths m sols = Inr ext"
    and cs: "cs = concat (map (conflicts_at ext) [0 ..< m])"
    using assms(1) by (auto simp: find_conflicts_def split: sum.splits)
  have "sorted_wrt K (map fst ext)" using assms(2) extend_paths_keys[OF ex] by simp
  then show ?thesis
    unfolding cs by (intro scan_sorted conflicts_at_sorted positions_at_keys_sorted)
qed

lemma sorted_wrt_True: "sorted_wrt (\<lambda>x y. True) xs"
  by (induction xs) simp_all


lemma scan_setup:
  assumes pm: "py_max (map (\<lambda>(a, p). length p) sols) = Inr m"
    and ex: "extend_paths m sols = Inr ext"
    and d: "distinct (map fst sols)" and tm: "t < m"
  shows "positions_at t ext = map (\<lambda>(a, p). (a, pos_at p t)) sols
       \<and> (\<forall>(c, r) \<in> set sols. \<forall>x. prev_pos ext c t x = pos_at r (t - 1))"
proof -
  let ?pad = "\<lambda>p. p @ replicate (m - length p) (last p)"
  have ext: "ext = map (\<lambda>(a, p). (a, ?pad p)) sols"
    and ne: "\<forall>(a, p) \<in> set sols. length p < m \<longrightarrow> p \<noteq> []"
    using extend_paths_eq[OF ex] by auto
  have le: "\<forall>(a, p) \<in> set sols. length p \<le> m"
    using py_max_ge[OF pm] by auto
  have padlen: "length (?pad p) = m" if "(a, p) \<in> set sols" for a p
    using le that by auto
  have padnth: "?pad p ! s = pos_at p s" if "(a, p) \<in> set sols" "s < m" for a p s
    using pad_nth[of s m p] le ne that by auto
  have pos: "positions_at t ext = map (\<lambda>(a, p). (a, pos_at p t)) sols"
  proof -
    have "filter (\<lambda>(a, p). t < length p) ext = ext"
      using padlen tm by (auto simp: ext filter_id_conv)
    then show ?thesis
      using padnth tm by (auto simp: positions_at_def ext)
  qed
  have dext: "distinct (map fst ext)"
    using d by (simp add: ext comp_def case_prod_beta)
  have prev: "prev_pos ext c t x = pos_at r (t - 1)" if cr: "(c, r) \<in> set sols" for c r x
  proof -
    have "(c, ?pad r) \<in> set ext" using cr by (auto simp: ext)
    then have "map_of ext c = Some (?pad r)" using dext by simp
    then have get: "dict_get ext c = ?pad r" by (simp add: dict_get_def)
    have "t - 1 < m" using tm by simp
    then show ?thesis
      using get padlen[OF cr] padnth[OF cr, of "t - 1"] by (simp add: prev_pos_def)
  qed
  show ?thesis using pos prev by blast
qed

lemma cbs_reach_ok:
  "cbs_reach fuel env config agents0 s \<Longrightarrow> \<forall>n \<in> set (fst (snd s)). node_ok n"
proof (induction rule: cbs_reach.induct)
  case (cbs_root agents1 sols confs)
  have "distinct (map fst sols)" using find_initial_distinct[OF cbs_root(1)] by simp
  then show ?case using cbs_root(2) by (simp add: node_ok_def)
next
  case (cbs_step agents ol iteration current_node ol1 conflict cs agents' ol2)
  have cur: "node_ok current_node"
    using heappop_fst[OF cbs_step(2), of cbs_lt] cbs_step(4,7) by auto
  have ol1: "\<forall>n \<in> set ol1. node_ok n"
    using heappop_snd[OF cbs_step(2), of cbs_lt] cbs_step(4,7) by auto
  from expand_ok[OF cbs_step(6) _ ol1] cur show ?case by (simp add: node_ok_def)
qed

lemma cbs_loop_split:
  assumes "ol \<noteq> []" "iteration < CBS_MAX_ITERATIONS config"
    and "heappop cbs_lt ol = (current_node, ol1)" and "cbs_conflicts current_node = conflict # cs"
  shows "cbs_loop fuel env config agents ol iteration =
     (case expand_children fuel env config current_node conflict agents ol1
             [conflict_agent1 conflict, conflict_agent2 conflict] of
        None \<Rightarrow> None
      | Some (agents', Inl ex) \<Rightarrow> Some (agents', ex)
      | Some (agents', Inr ol2) \<Rightarrow> cbs_loop fuel env config agents' ol2 (iteration + 1))"
  using assms by (subst cbs_loop.simps) simp

lemma cbs_reach_search_exit:
  "cbs_reach fuel env config agents0 s \<Longrightarrow>
   search_exit fuel env config agents0 = cbs_loop fuel env config (fst s) (fst (snd s)) (snd (snd s))"
proof (induction rule: cbs_reach.induct)
  case (cbs_root agents1 sols confs)
  then show ?case by (simp add: search_exit_def Let_def)
next
  case (cbs_step agents ol iteration current_node ol1 conflict cs agents' ol2)
  then show ?case using cbs_loop_split[OF cbs_step(2,3,4,5), of fuel env agents] by simp
qed

lemma pairs_after_index:
  "q \<in> set (pairs_after xs) \<Longrightarrow> \<exists>i j. i < j \<and> j < length xs \<and> q = (xs ! i, xs ! j)"
proof (induction xs)
  case Nil
  then show ?case by simp
next
  case (Cons x xs)
  from Cons.prems consider (hd) y where "y \<in> set xs" "q = (x, y)" | (tl) "q \<in> set (pairs_after xs)"
    by auto
  then show ?case
  proof cases
    case hd
    then obtain k where "k < length xs" "xs ! k = y" by (auto simp: in_set_conv_nth)
    then have "0 < Suc k \<and> Suc k < length (x # xs) \<and> q = ((x # xs) ! 0, (x # xs) ! Suc k)"
      using hd by simp
    then show ?thesis by blast
  next
    case tl
    from Cons.IH[OF tl] obtain i j where "i < j" "j < length xs" "q = (xs ! i, xs ! j)" by blast
    then have "Suc i < Suc j \<and> Suc j < length (x # xs) \<and> q = ((x # xs) ! Suc i, (x # xs) ! Suc j)"
      by simp
    then show ?thesis by blast
  qed
qed

lemma conflicts_at_char:
  assumes pm: "py_max (map (\<lambda>(a, p). length p) sols) = Inr m"
    and ex: "extend_paths m sols = Inr ext"
    and d: "distinct (map fst sols)" and tm: "T < m"
  shows "c \<in> set (conflicts_at ext T) \<longleftrightarrow>
     (\<exists>i j. i < j \<and> j < length sols \<and>
        ((pos_at (snd (sols ! i)) T = pos_at (snd (sols ! j)) T
          \<and> c = \<lparr>conflict_agent1 = fst (sols ! i), conflict_agent2 = fst (sols ! j),
                  conflict_position = pos_at (snd (sols ! i)) T,
                  conflict_time = int T, conflict_type = ''vertex''\<rparr>)
         \<or> (0 < T \<and> pos_at (snd (sols ! i)) (T - 1) = pos_at (snd (sols ! j)) T
             \<and> pos_at (snd (sols ! j)) (T - 1) = pos_at (snd (sols ! i)) T
             \<and> c = \<lparr>conflict_agent1 = fst (sols ! i), conflict_agent2 = fst (sols ! j),
                     conflict_position = pos_at (snd (sols ! i)) T,
                     conflict_time = int T, conflict_type = ''edge''\<rparr>)))"
    (is "?L \<longleftrightarrow> ?R")
proof -
  let ?f = "\<lambda>x. (fst x, pos_at (snd x) T)"
  let ?ps = "map ?f sols"
  from scan_setup[OF pm ex d tm]
  have pos: "positions_at T ext = ?ps"
    and prev: "\<And>a r x. (a, r) \<in> set sols \<Longrightarrow> prev_pos ext a T x = pos_at r (T - 1)"
    by (auto simp: case_prod_beta)
  have prevn: "prev_pos ext (fst (sols ! k)) T x = pos_at (snd (sols ! k)) (T - 1)"
    if "k < length sols" for k x
    using prev[of "fst (sols ! k)" "snd (sols ! k)" x] that by simp
  let ?V = "\<lambda>i j. \<lparr>conflict_agent1 = fst (sols ! i), conflict_agent2 = fst (sols ! j),
                  conflict_position = pos_at (snd (sols ! i)) T,
                  conflict_time = int T, conflict_type = ''vertex''\<rparr>"
  let ?E = "\<lambda>i j. \<lparr>conflict_agent1 = fst (sols ! i), conflict_agent2 = fst (sols ! j),
                  conflict_position = pos_at (snd (sols ! i)) T,
                  conflict_time = int T, conflict_type = ''edge''\<rparr>"
  let ?mkV = "\<lambda>((agent1, pos1), (agent2, pos2)).
            \<lparr>conflict_agent1 = agent1, conflict_agent2 = agent2, conflict_position = pos1,
             conflict_time = int T, conflict_type = ''vertex''\<rparr>"
  let ?mkE = "\<lambda>((agent1, pos1), (agent2, pos2)).
            \<lparr>conflict_agent1 = agent1, conflict_agent2 = agent2, conflict_position = pos1,
             conflict_time = int T, conflict_type = ''edge''\<rparr>"
  let ?PV = "\<lambda>((agent1 :: int, pos1 :: cell), (agent2 :: int, pos2 :: cell)). pos1 = pos2"
  let ?PE = "\<lambda>((agent1, pos1), (agent2, pos2)).
               prev_pos ext agent1 T pos1 = pos2 \<and> prev_pos ext agent2 T pos2 = pos1"
  have pair: "(?ps ! i, ?ps ! j) \<in> set (pairs_after ?ps)
              \<and> ?ps ! i = ?f (sols ! i) \<and> ?ps ! j = ?f (sols ! j)"
    if "i < j" "j < length sols" for i j
    using pairs_after_nth[of i j ?ps] that by simp
  have idx: "\<exists>i j. i < j \<and> j < length sols \<and> q = (?f (sols ! i), ?f (sols ! j))"
    if "q \<in> set (pairs_after ?ps)" for q
  proof -
    from pairs_after_index[OF that] obtain i j where
      ij: "i < j" "j < length ?ps" "q = (?ps ! i, ?ps ! j)" by blast
    then have "q = (?f (sols ! i), ?f (sols ! j))" by simp
    then show ?thesis using ij by auto
  qed
  have vset: "set (vertex_conflicts_at T ?ps) = ?mkV ` {q \<in> set (pairs_after ?ps). ?PV q}"
    by (simp add: vertex_conflicts_at_def)
  have eset: "set (edge_conflicts_at ext T ?ps)
                = (if 0 < T then ?mkE ` {q \<in> set (pairs_after ?ps). ?PE q} else {})"
    by (simp add: edge_conflicts_at_def)
  have L: "?L \<longleftrightarrow> c \<in> ?mkV ` {q \<in> set (pairs_after ?ps). ?PV q}
                  \<or> (0 < T \<and> c \<in> ?mkE ` {q \<in> set (pairs_after ?ps). ?PE q})"
    unfolding conflicts_at_def Let_def pos set_append vset eset by auto
  show ?thesis
  proof
    assume ?L
    then consider (v) q where "q \<in> set (pairs_after ?ps)" "?PV q" "c = ?mkV q"
      | (e) q where "0 < T" "q \<in> set (pairs_after ?ps)" "?PE q" "c = ?mkE q"
      unfolding L by blast
    then show ?R
    proof cases
      case v
      from idx[OF v(1)] obtain i j where ij: "i < j" "j < length sols"
        and q: "q = (?f (sols ! i), ?f (sols ! j))" by blast
      have "pos_at (snd (sols ! i)) T = pos_at (snd (sols ! j)) T \<and> c = ?V i j"
        using v(2,3) q by simp
      then show ?thesis using ij by blast
    next
      case e
      from idx[OF e(2)] obtain i j where ij: "i < j" "j < length sols"
        and q: "q = (?f (sols ! i), ?f (sols ! j))" by blast
      have il: "i < length sols" using ij by simp
      have "pos_at (snd (sols ! i)) (T - 1) = pos_at (snd (sols ! j)) T
            \<and> pos_at (snd (sols ! j)) (T - 1) = pos_at (snd (sols ! i)) T \<and> c = ?E i j"
        using e(3,4) q prevn[OF il] prevn[OF ij(2)] by simp
      then show ?thesis using ij e(1) by blast
    qed
  next
    assume ?R
    then obtain i j where ij: "i < j" "j < length sols"
      and cases: "(pos_at (snd (sols ! i)) T = pos_at (snd (sols ! j)) T \<and> c = ?V i j)
         \<or> (0 < T \<and> pos_at (snd (sols ! i)) (T - 1) = pos_at (snd (sols ! j)) T
             \<and> pos_at (snd (sols ! j)) (T - 1) = pos_at (snd (sols ! i)) T \<and> c = ?E i j)"
      by blast
    have il: "i < length sols" using ij by simp
    let ?q = "(?f (sols ! i), ?f (sols ! j))"
    have qin: "?q \<in> set (pairs_after ?ps)"
    proof -
      from pair[OF ij] have a: "(?ps ! i, ?ps ! j) \<in> set (pairs_after ?ps)"
        and b: "?ps ! i = ?f (sols ! i)" and c: "?ps ! j = ?f (sols ! j)"
        by blast+
      show ?thesis using a unfolding b c .
    qed
    define q where "q = ?q"
    have qin': "q \<in> set (pairs_after ?ps)" using qin by (simp only: q_def)
    from cases show ?L
    proof
      assume a: "pos_at (snd (sols ! i)) T = pos_at (snd (sols ! j)) T \<and> c = ?V i j"
      have pv: "?PV q" and cq: "c = ?mkV q" using a by (simp_all add: q_def)
      have m: "q \<in> {q \<in> set (pairs_after ?ps). ?PV q}"
        by (rule CollectI) (rule conjI[OF qin' pv])
      have "c \<in> ?mkV ` {q \<in> set (pairs_after ?ps). ?PV q}"
        by (rule image_eqI[where x = q]) (rule cq, rule m)
      then show ?L unfolding L by (rule disjI1)
    next
      assume a: "0 < T \<and> pos_at (snd (sols ! i)) (T - 1) = pos_at (snd (sols ! j)) T
             \<and> pos_at (snd (sols ! j)) (T - 1) = pos_at (snd (sols ! i)) T \<and> c = ?E i j"
      have pe: "?PE q" and cq: "c = ?mkE q"
        using a prevn[OF il] prevn[OF ij(2)] by (simp_all add: q_def)
      have m: "q \<in> {q \<in> set (pairs_after ?ps). ?PE q}"
        by (rule CollectI) (rule conjI[OF qin' pe])
      have "c \<in> ?mkE ` {q \<in> set (pairs_after ?ps). ?PE q}"
        by (rule image_eqI[where x = q]) (rule cq, rule m)
      then show ?L unfolding L using a by (intro disjI2 conjI) simp_all
    qed
  qed
qed


lemma find_conflicts_char:
  assumes fc: "find_conflicts sols = Inr cs" and d: "distinct (map fst sols)"
  shows "c \<in> set cs \<longleftrightarrow>
     (\<exists>i j T. i < j \<and> j < length sols \<and> T < plan_length sols \<and>
        ((pos_at (snd (sols ! i)) T = pos_at (snd (sols ! j)) T
          \<and> c = \<lparr>conflict_agent1 = fst (sols ! i), conflict_agent2 = fst (sols ! j),
                  conflict_position = pos_at (snd (sols ! i)) T,
                  conflict_time = int T, conflict_type = ''vertex''\<rparr>)
         \<or> (0 < T \<and> pos_at (snd (sols ! i)) (T - 1) = pos_at (snd (sols ! j)) T
             \<and> pos_at (snd (sols ! j)) (T - 1) = pos_at (snd (sols ! i)) T
             \<and> c = \<lparr>conflict_agent1 = fst (sols ! i), conflict_agent2 = fst (sols ! j),
                     conflict_position = pos_at (snd (sols ! i)) T,
                     conflict_time = int T, conflict_type = ''edge''\<rparr>)))"
proof -
  obtain m ext where pm: "py_max (map (\<lambda>(a, p). length p) sols) = Inr m"
    and ex: "extend_paths m sols = Inr ext"
    and cs: "cs = concat (map (conflicts_at ext) [0 ..< m])"
    using fc by (auto simp: find_conflicts_def split: sum.splits)
  have m: "plan_length sols = m" using pm by (simp add: plan_length_def)
  define R where "R = (\<lambda>i j T.
        (pos_at (snd (sols ! i)) T = pos_at (snd (sols ! j)) T
          \<and> c = \<lparr>conflict_agent1 = fst (sols ! i), conflict_agent2 = fst (sols ! j),
                  conflict_position = pos_at (snd (sols ! i)) T,
                  conflict_time = int T, conflict_type = ''vertex''\<rparr>)
         \<or> (0 < T \<and> pos_at (snd (sols ! i)) (T - 1) = pos_at (snd (sols ! j)) T
             \<and> pos_at (snd (sols ! j)) (T - 1) = pos_at (snd (sols ! i)) T
             \<and> c = \<lparr>conflict_agent1 = fst (sols ! i), conflict_agent2 = fst (sols ! j),
                     conflict_position = pos_at (snd (sols ! i)) T,
                     conflict_time = int T, conflict_type = ''edge''\<rparr>))"
  have at: "c \<in> set (conflicts_at ext T) \<longleftrightarrow> (\<exists>i j. i < j \<and> j < length sols \<and> R i j T)"
    if "T < m" for T
    unfolding R_def by (rule conflicts_at_char[OF pm ex d that])
  have "c \<in> set cs \<longleftrightarrow> (\<exists>T. T < m \<and> c \<in> set (conflicts_at ext T))"
    unfolding cs by auto
  also have "\<dots> \<longleftrightarrow> (\<exists>T. T < m \<and> (\<exists>i j. i < j \<and> j < length sols \<and> R i j T))"
    using at by blast
  also have "\<dots> \<longleftrightarrow> (\<exists>i j T. i < j \<and> j < length sols \<and> T < m \<and> R i j T)"
    by blast
  finally show ?thesis unfolding m R_def .
qed

text \<open>
  C4, as the code has it. In every state in which \<open>search\<close> enters its loop and pops a
  node with conflicts, it splits on the first conflict \<open>c\<close> of the node (line 80), and
  the conflicts of the node are the list that \<open>_find_conflicts\<close> returns for the plans
  of the node. That first conflict is least in the order of the scan: by time, then
  vertex before edge; and, when the keys of the plans ascend, least in the lexicographic
  order by \<open>(t, type_order, a, b)\<close>. The recorded conflicts are exactly these: for two
  agents \<open>a\<close> before \<open>b\<close> in the dictionary and a time \<open>T\<close> of the padded plans, a vertex
  conflict with time \<open>T\<close> when \<open>pos_a(T) = pos_b(T)\<close>, and, for \<open>T \<ge> 1\<close>, an edge
  conflict with the arrival time \<open>T\<close> and the position \<open>pos_a(T)\<close> when
  \<open>pos_a(T - 1) = pos_b(T)\<close> and \<open>pos_b(T - 1) = pos_a(T)\<close>, whether or not \<open>a\<close> has
  moved.
\<close>

theorem split_conflict_is_first_in_scan_order:
  assumes r: "cbs_reach fuel env config agents0 (agents, ol, iteration)"
    and ne: "ol \<noteq> []" and it: "iteration < CBS_MAX_ITERATIONS config"
    and pop: "heappop cbs_lt ol = (current_node, ol1)"
    and cf: "cbs_conflicts current_node = c # cs"
  shows "search_exit fuel env config agents0 =
           (case expand_children fuel env config current_node c agents ol1
                   [conflict_agent1 c, conflict_agent2 c] of
              None \<Rightarrow> None
            | Some (agents', Inl ex) \<Rightarrow> Some (agents', ex)
            | Some (agents', Inr ol2) \<Rightarrow> cbs_loop fuel env config agents' ol2 (iteration + 1))
       \<and> find_conflicts (cbs_solutions current_node) = Inr (c # cs)
       \<and> (\<forall>d \<in> set cs. conflict_time c < conflict_time d
                      \<or> (conflict_time c = conflict_time d \<and> type_order c \<le> type_order d))
       \<and> (sorted_wrt (<) (map fst (cbs_solutions current_node))
            \<longrightarrow> (\<forall>d \<in> set cs. conflict_before c d))
       \<and> (\<forall>d. d \<in> set (c # cs) \<longleftrightarrow>
            (\<exists>i j T. i < j \<and> j < length (cbs_solutions current_node)
               \<and> T < plan_length (cbs_solutions current_node)
               \<and> ((pos_at (snd (cbs_solutions current_node ! i)) T
                     = pos_at (snd (cbs_solutions current_node ! j)) T
                   \<and> d = \<lparr>conflict_agent1 = fst (cbs_solutions current_node ! i),
                          conflict_agent2 = fst (cbs_solutions current_node ! j),
                          conflict_position = pos_at (snd (cbs_solutions current_node ! i)) T,
                          conflict_time = int T, conflict_type = ''vertex''\<rparr>)
                  \<or> (0 < T
                     \<and> pos_at (snd (cbs_solutions current_node ! i)) (T - 1)
                         = pos_at (snd (cbs_solutions current_node ! j)) T
                     \<and> pos_at (snd (cbs_solutions current_node ! j)) (T - 1)
                         = pos_at (snd (cbs_solutions current_node ! i)) T
                     \<and> d = \<lparr>conflict_agent1 = fst (cbs_solutions current_node ! i),
                            conflict_agent2 = fst (cbs_solutions current_node ! j),
                            conflict_position = pos_at (snd (cbs_solutions current_node ! i)) T,
                            conflict_time = int T, conflict_type = ''edge''\<rparr>))))"
proof -
  have cur: "node_ok current_node"
    using cbs_reach_ok[OF r] heappop_fst[OF ne, of cbs_lt] pop by auto
  have dist: "distinct (map fst (cbs_solutions current_node))"
    and fc: "find_conflicts (cbs_solutions current_node) = Inr (c # cs)"
    using cur cf by (simp_all add: node_ok_def)
  have A: "search_exit fuel env config agents0 =
           (case expand_children fuel env config current_node c agents ol1
                   [conflict_agent1 c, conflict_agent2 c] of
              None \<Rightarrow> None
            | Some (agents', Inl ex) \<Rightarrow> Some (agents', ex)
            | Some (agents', Inr ol2) \<Rightarrow> cbs_loop fuel env config agents' ol2 (iteration + 1))"
    using cbs_reach_search_exit[OF r] cbs_loop_split[OF ne it pop cf, of fuel env agents]
    by simp
  have C: "\<forall>d \<in> set cs. conflict_time c < conflict_time d
                      \<or> (conflict_time c = conflict_time d \<and> type_order c \<le> type_order d)"
  proof
    fix d assume d: "d \<in> set cs"
    have "sorted_wrt (scan_before (\<lambda>x y. True)) (c # cs)"
      using find_conflicts_sorted[OF fc, of "\<lambda>x y. True"] sorted_wrt_True by blast
    then have "scan_before (\<lambda>x y. True) c d" using d by simp
    then show "conflict_time c < conflict_time d
             \<or> (conflict_time c = conflict_time d \<and> type_order c \<le> type_order d)"
      by (auto simp: scan_before_def)
  qed
  have D: "sorted_wrt (<) (map fst (cbs_solutions current_node))
            \<longrightarrow> (\<forall>d \<in> set cs. conflict_before c d)"
  proof (intro impI ballI)
    fix d assume s: "sorted_wrt (<) (map fst (cbs_solutions current_node))" and d: "d \<in> set cs"
    have "sorted_wrt (scan_before (<)) (c # cs)"
      using find_conflicts_sorted[OF fc s] .
    then have "scan_before (<) c d" using d by simp
    then show "conflict_before c d"
      by (auto simp: scan_before_def conflict_before_def)
  qed
  show ?thesis
    by (rule conjI[OF A conjI[OF fc conjI[OF C conjI[OF D]]]]) (rule find_conflicts_char[OF fc dist, THEN allI])
qed

lemma three_agents_scan:
  "find_conflicts [(0, [(0,0), (0,1)]), (1, [(0,1), (0,0)]), (2, [(1,1), (0,1)])]
     = Inr [\<lparr>conflict_agent1 = 0, conflict_agent2 = 2, conflict_position = (0,1),
             conflict_time = 1, conflict_type = ''vertex''\<rparr>,
            \<lparr>conflict_agent1 = 0, conflict_agent2 = 1, conflict_position = (0,1),
             conflict_time = 1, conflict_type = ''edge''\<rparr>]"
  by code_simp

lemma three_agents_root:
  "find_initial_solutions 10 square2 \<lparr>MAX_TIME_STEPS = 4, CBS_MAX_ITERATIONS = 1000\<rparr>
      new_ConstraintsSet
      [new_Agent 0 (0,0) (0,1), new_Agent 1 (0,1) (0,0), new_Agent 2 (1,1) (0,1)] []
   = Some ([(new_Agent 0 (0,0) (0,1))\<lparr>agent_path := [(0,0), (0,1)], agent_cost := 1\<rparr>,
            (new_Agent 1 (0,1) (0,0))\<lparr>agent_path := [(0,1), (0,0)], agent_cost := 1\<rparr>,
            (new_Agent 2 (1,1) (0,1))\<lparr>agent_path := [(1,1), (0,1)], agent_cost := 1\<rparr>],
           [(0, [(0,0), (0,1)]), (1, [(0,1), (0,0)]), (2, [(1,1), (0,1)])])"
  by code_simp

lemma three_agents_pop:
  "heappop cbs_lt (heappush cbs_lt [] n) = (n, [])"
  by code_simp

theorem split_conflict_is_first_in_scan_order_witness:
  "search_exit 10 square2 \<lparr>MAX_TIME_STEPS = 4, CBS_MAX_ITERATIONS = 1000\<rparr>
      [new_Agent 0 (0,0) (0,1), new_Agent 1 (0,1) (0,0), new_Agent 2 (1,1) (0,1)]
   = (case expand_children 10 square2 \<lparr>MAX_TIME_STEPS = 4, CBS_MAX_ITERATIONS = 1000\<rparr>
             \<lparr>cbs_constraints = new_ConstraintsSet,
              cbs_solutions = [(0, [(0,0), (0,1)]), (1, [(0,1), (0,0)]), (2, [(1,1), (0,1)])],
              cbs_cost = 3,
              cbs_conflicts =
                [\<lparr>conflict_agent1 = 0, conflict_agent2 = 2, conflict_position = (0,1),
                  conflict_time = 1, conflict_type = ''vertex''\<rparr>,
                 \<lparr>conflict_agent1 = 0, conflict_agent2 = 1, conflict_position = (0,1),
                  conflict_time = 1, conflict_type = ''edge''\<rparr>]\<rparr>
             \<lparr>conflict_agent1 = 0, conflict_agent2 = 2, conflict_position = (0,1),
              conflict_time = 1, conflict_type = ''vertex''\<rparr>
             [(new_Agent 0 (0,0) (0,1))\<lparr>agent_path := [(0,0), (0,1)], agent_cost := 1\<rparr>,
              (new_Agent 1 (0,1) (0,0))\<lparr>agent_path := [(0,1), (0,0)], agent_cost := 1\<rparr>,
              (new_Agent 2 (1,1) (0,1))\<lparr>agent_path := [(1,1), (0,1)], agent_cost := 1\<rparr>]
             [] [0, 2] of
        None \<Rightarrow> None
      | Some (agents', Inl ex) \<Rightarrow> Some (agents', ex)
      | Some (agents', Inr ol2) \<Rightarrow>
          cbs_loop 10 square2 \<lparr>MAX_TIME_STEPS = 4, CBS_MAX_ITERATIONS = 1000\<rparr> agents' ol2 1)
   \<and> find_conflicts [(0, [(0,0), (0,1)]), (1, [(0,1), (0,0)]), (2, [(1,1), (0,1)])]
     = Inr [\<lparr>conflict_agent1 = 0, conflict_agent2 = 2, conflict_position = (0,1),
             conflict_time = 1, conflict_type = ''vertex''\<rparr>,
            \<lparr>conflict_agent1 = 0, conflict_agent2 = 1, conflict_position = (0,1),
             conflict_time = 1, conflict_type = ''edge''\<rparr>]
   \<and> conflict_before
        \<lparr>conflict_agent1 = 0, conflict_agent2 = 2, conflict_position = (0,1),
         conflict_time = 1, conflict_type = ''vertex''\<rparr>
        \<lparr>conflict_agent1 = 0, conflict_agent2 = 1, conflict_position = (0,1),
         conflict_time = 1, conflict_type = ''edge''\<rparr>
   \<and> pos_at [(0,0), (0,1)] 0 = pos_at [(0,1), (0,0)] 1
   \<and> pos_at [(0,1), (0,0)] 0 = pos_at [(0,0), (0,1)] 1
   \<and> \<lparr>conflict_agent1 = 0, conflict_agent2 = 1, conflict_position = pos_at [(0,0), (0,1)] 1,
       conflict_time = 1, conflict_type = ''edge''\<rparr>
       \<in> set [\<lparr>conflict_agent1 = 0, conflict_agent2 = 2, conflict_position = (0,1),
                conflict_time = 1, conflict_type = ''vertex''\<rparr>,
               \<lparr>conflict_agent1 = 0, conflict_agent2 = 1, conflict_position = (0,1),
                conflict_time = 1, conflict_type = ''edge''\<rparr>]"
proof -
  let ?cfg = "\<lparr>MAX_TIME_STEPS = 4, CBS_MAX_ITERATIONS = 1000\<rparr>"
  let ?S = "[(0, [(0,0), (0,1)]), (1, [(0,1), (0,0)]), (2::int, [(1,1), (0::int,1::int)])]"
  let ?V = "\<lparr>conflict_agent1 = 0, conflict_agent2 = 2, conflict_position = (0,1),
             conflict_time = 1, conflict_type = ''vertex''\<rparr>"
  let ?E = "\<lparr>conflict_agent1 = 0, conflict_agent2 = 1, conflict_position = (0,1),
             conflict_time = 1, conflict_type = ''edge''\<rparr>"
  let ?root = "\<lparr>cbs_constraints = new_ConstraintsSet, cbs_solutions = ?S,
                cbs_cost = calculate_solution_cost ?S, cbs_conflicts = [?V, ?E]\<rparr>"
  have cost: "calculate_solution_cost ?S = 3" by code_simp
  have len: "plan_length ?S = 2" by code_simp
  note r = cbs_root[OF three_agents_root three_agents_scan]
  have ne: "heappush cbs_lt [] ?root \<noteq> []" by code_simp
  have it: "(0::int) < CBS_MAX_ITERATIONS ?cfg" by simp
  have cf: "cbs_conflicts ?root = [?V, ?E]" by simp
  note t = split_conflict_is_first_in_scan_order[OF r ne it three_agents_pop cf]
  have A: "search_exit 10 square2 ?cfg
      [new_Agent 0 (0,0) (0,1), new_Agent 1 (0,1) (0,0), new_Agent 2 (1,1) (0,1)]
   = (case expand_children 10 square2 ?cfg \<lparr>cbs_constraints = new_ConstraintsSet, cbs_solutions = ?S,
                cbs_cost = 3, cbs_conflicts = [?V, ?E]\<rparr> ?V
             [(new_Agent 0 (0,0) (0,1))\<lparr>agent_path := [(0,0), (0,1)], agent_cost := 1\<rparr>,
              (new_Agent 1 (0,1) (0,0))\<lparr>agent_path := [(0,1), (0,0)], agent_cost := 1\<rparr>,
              (new_Agent 2 (1,1) (0,1))\<lparr>agent_path := [(1,1), (0,1)], agent_cost := 1\<rparr>]
             [] [0, 2] of
        None \<Rightarrow> None
      | Some (agents', Inl ex) \<Rightarrow> Some (agents', ex)
      | Some (agents', Inr ol2) \<Rightarrow> cbs_loop 10 square2 ?cfg agents' ol2 1)"
    using t[THEN conjunct1, unfolded add_0] by (simp add: cost del: expand_children.simps)
  have B: "find_conflicts ?S = Inr [?V, ?E]"
    using t[THEN conjunct2, THEN conjunct1] by simp
  have s: "sorted_wrt (<) (map fst (cbs_solutions ?root))" by simp
  have C: "conflict_before ?V ?E"
    using t[THEN conjunct2, THEN conjunct2, THEN conjunct2, THEN conjunct1] s by simp
  have p1: "pos_at [(0,0), (0,1)] 0 = pos_at [(0,1), (0::int,0::int)] 1"
    and p2: "pos_at [(0,1), (0,0)] 0 = pos_at [(0,0), (0::int,1::int)] 1"
    by (simp_all add: pos_at_def)
  let ?E' = "\<lparr>conflict_agent1 = 0, conflict_agent2 = 1,
              conflict_position = pos_at [(0,0), (0::int,1::int)] 1,
              conflict_time = 1, conflict_type = ''edge''\<rparr>"
  have D: "?E' \<in> set [?V, ?E]"
    apply (rule t[THEN conjunct2, THEN conjunct2, THEN conjunct2, THEN conjunct2,
                 THEN spec, of ?E', THEN iffD2])
    apply (rule exI[of _ 0], rule exI[of _ 1], rule exI[of _ 1])
    apply (simp add: len p1 p2)
    done
  show ?thesis
    by (rule conjI[OF A conjI[OF B conjI[OF C conjI[OF p1 conjI[OF p2 D]]]]])
qed

text \<open>
  C4 as stated fails. Agents 0 and 1 swap cells between times 0 and 1, and agents 0 and
  2 meet in \<open>(0,1)\<close> at time 1. With the edge conflict recorded at time \<open>t - 1 = 0\<close> it
  would be the least conflict; the scan records it with time 1, after the vertex conflict
  of time 1, and \<open>search\<close> splits on the vertex conflict. Further, two agents that rest in
  the same cell get an edge conflict at time 1, although neither has moved.
\<close>

theorem edge_conflict_recorded_at_arrival:
  "find_conflicts [(0, [(0,0), (0,1)]), (1, [(0,1), (0,0)]), (2, [(1,1), (0,1)])]
     = Inr [\<lparr>conflict_agent1 = 0, conflict_agent2 = 2, conflict_position = (0,1),
             conflict_time = 1, conflict_type = ''vertex''\<rparr>,
            \<lparr>conflict_agent1 = 0, conflict_agent2 = 1, conflict_position = (0,1),
             conflict_time = 1, conflict_type = ''edge''\<rparr>]
   \<and> pos_at [(0,0), (0,1)] 0 = pos_at [(0,1), (0,0)] 1
   \<and> pos_at [(0,1), (0,0)] 0 = pos_at [(0,0), (0,1)] 1
   \<and> pos_at [(0,0), (0,1)] 1 \<noteq> pos_at [(0,0), (0,1)] 0
   \<and> find_conflicts [(0, [(0,0), (0,0)]), (1, [(0,0), (0,0)])]
     = Inr [\<lparr>conflict_agent1 = 0, conflict_agent2 = 1, conflict_position = (0,0),
             conflict_time = 0, conflict_type = ''vertex''\<rparr>,
            \<lparr>conflict_agent1 = 0, conflict_agent2 = 1, conflict_position = (0,0),
             conflict_time = 1, conflict_type = ''vertex''\<rparr>,
            \<lparr>conflict_agent1 = 0, conflict_agent2 = 1, conflict_position = (0,0),
             conflict_time = 1, conflict_type = ''edge''\<rparr>]"
  by code_simp

section \<open>Termination: results\<close>

lemma finite_state_space [simp]: "finite (state_space env start max_time)"
  by (simp add: state_space_def)

lemma siftdown_length [simp]: "length (siftdown lt heap startpos pos) = length heap"
  by (simp add: siftdown_def)

lemma siftup_length [simp]: "length (siftup lt heap pos) = length heap"
proof -
  obtain h' p' where sl: "siftup_loop lt heap (length heap) pos (2 * pos + 1) = (h', p')"
    by (cases "siftup_loop lt heap (length heap) pos (2 * pos + 1)")
  have "length h' = length heap"
    using siftup_loop_length[of lt heap "length heap" pos "2 * pos + 1", unfolded sl] by simp
  then show ?thesis using sl by (simp add: siftup_def)
qed

lemma heappush_length [simp]: "length (heappush lt heap item) = Suc (length heap)"
  by (simp add: heappush_def)

lemma heappop_length: "heap \<noteq> [] \<Longrightarrow> length (snd (heappop lt heap)) = length heap - 1"
  by (cases heap rule: rev_cases) (auto simp: heappop_def Let_def)

lemma process_neighbor_cases:
  assumes inv: "astar_inv st" and cur: "cur < length (nodes st)"
    and nt: "nt = node_t (nodes st ! cur) + 1"
    and new: "new = new_SippNode nx ny nt (node_g (nodes st ! cur) + 1)
                      (get_manhattan_distance (nx, ny) goal) (Some cur)"
  shows "process_neighbor self goal cur st (nx, ny, nt) = st
       \<or> process_neighbor self goal cur st (nx, ny, nt) = st\<lparr>nodes := nodes st @ [new]\<rparr>
       \<or> (node_dict st (nx, ny, nt) = None
          \<and> process_neighbor self goal cur st (nx, ny, nt) =
              st\<lparr>nodes := nodes st @ [new],
                 open_list := heappush (node_lt (nodes st @ [new])) (open_list st) (length (nodes st)),
                 node_dict := (node_dict st)((nx, ny, nt) \<mapsto> length (nodes st))\<rparr>)"
proof -
  let ?c = "nodes st ! cur"
  from inv have g: "\<forall>n\<in>set (nodes st). node_g n = node_t n"
    and d: "\<And>k a. node_dict st k = Some a \<Longrightarrow> a < length (nodes st) \<and> node_key (nodes st ! a) = k"
    by (auto simp: astar_inv_def)
  have gc: "node_g ?c = node_t ?c" using g cur by simp
  have newg: "node_g new = nt" using nt gc by (simp add: new new_SippNode_def)
  have ex: "\<not> node_g new < node_g ((nodes st @ [new]) ! e)" if e: "node_dict st (nx, ny, nt) = Some e" for e
  proof -
    have el: "e < length (nodes st)" and ek: "node_key (nodes st ! e) = (nx, ny, nt)"
      using d[OF e] by auto
    have "node_g (nodes st ! e) = node_t (nodes st ! e)" using g el by simp
    also have "\<dots> = nt" using ek by (simp add: node_key_def)
    finally show ?thesis using el newg by (simp add: nth_append)
  qed
  show ?thesis
    using ex by (auto simp: process_neighbor_def Let_def new split: option.splits)
qed

lemma process_neighbor_term:
  assumes T: "astar_term_inv env start max_time st" and cur: "cur < length (nodes st)"
    and nt: "nt = node_t (nodes st ! cur) + 1"
    and k: "(nx, ny, nt) \<in> state_space env start max_time"
  shows "astar_term_inv env start max_time (process_neighbor self goal cur st (nx, ny, nt))
       \<and> astar_measure env start max_time (process_neighbor self goal cur st (nx, ny, nt))
           = astar_measure env start max_time st
       \<and> length (nodes (process_neighbor self goal cur st (nx, ny, nt))) \<le> Suc (length (nodes st))
       \<and> (\<exists>ext. nodes (process_neighbor self goal cur st (nx, ny, nt)) = nodes st @ ext)"
proof -
  define new where "new = new_SippNode nx ny nt (node_g (nodes st ! cur) + 1)
                      (get_manhattan_distance (nx, ny) goal) (Some cur)"
  let ?st' = "process_neighbor self goal cur st (nx, ny, nt)"
  from T have inv: "astar_inv st" and t0: "\<forall>n \<in> set (nodes st). 0 \<le> node_t n"
    and dom: "dom (node_dict st) \<subseteq> state_space env start max_time"
    and par: "\<forall>a < length (nodes st). \<forall>b. node_parent (nodes st ! a) = Some b \<longrightarrow> b < a"
    by (auto simp: astar_term_inv_def)
  have inv': "astar_inv ?st'"
    using process_neighbor_inv[OF inv cur nt, of self goal nx ny] by simp
  have newt: "0 \<le> node_t new" and newp: "node_parent new = Some cur"
    using nt t0 cur by (auto simp: new_def new_SippNode_def)
  have t1: "\<forall>n \<in> set (nodes st @ [new]). 0 \<le> node_t n" using t0 newt by auto
  have par1: "\<forall>a < length (nodes st @ [new]). \<forall>b.
                 node_parent ((nodes st @ [new]) ! a) = Some b \<longrightarrow> b < a"
    using par newp cur by (auto simp: nth_append less_Suc_eq)
  from process_neighbor_cases[OF inv cur nt new_def, of self]
  consider (same) "?st' = st"
    | (store) "?st' = st\<lparr>nodes := nodes st @ [new]\<rparr>"
    | (push) "node_dict st (nx, ny, nt) = None"
        "?st' = st\<lparr>nodes := nodes st @ [new],
                 open_list := heappush (node_lt (nodes st @ [new])) (open_list st) (length (nodes st)),
                 node_dict := (node_dict st)((nx, ny, nt) \<mapsto> length (nodes st))\<rparr>"
    by (elim disjE conjE) simp_all
  then show ?thesis
  proof cases
    case same
    then show ?thesis using T by simp
  next
    case store
    have "astar_term_inv env start max_time ?st'"
      using inv' t1 par1 dom unfolding astar_term_inv_def store by simp
    then show ?thesis by (simp add: store astar_measure_def)
  next
    case push
    have T': "astar_term_inv env start max_time ?st'"
      using inv' t1 par1 dom k unfolding astar_term_inv_def push(2) by simp
    let ?S = "state_space env start max_time"
    have kin: "(nx, ny, nt) \<in> ?S - dom (node_dict st)" using k push(1) by auto
    have "?S - dom ((node_dict st)((nx, ny, nt) \<mapsto> length (nodes st)))
            = (?S - dom (node_dict st)) - {(nx, ny, nt)}"
      by auto
    then have "card (?S - dom ((node_dict st)((nx, ny, nt) \<mapsto> length (nodes st))))
            = card (?S - dom (node_dict st)) - 1"
      using kin by (simp add: card_Diff_singleton)
    moreover have "0 < card (?S - dom (node_dict st))"
      using kin by (auto simp: card_gt_0_iff)
    ultimately have "astar_measure env start max_time ?st' = astar_measure env start max_time st"
      by (simp add: push(2) astar_measure_def)
    then show ?thesis using T' by (simp add: push(2))
  qed
qed


lemma get_neighbors_space:
  "nb \<in> set (get_neighbors env (x, y, t)) \<Longrightarrow> 0 \<le> t \<Longrightarrow> t < max_time \<Longrightarrow>
   nb \<in> state_space env start max_time"
  by (auto simp: get_neighbors_def state_space_def)

lemma get_neighbors_length: "length (get_neighbors env s) \<le> 5"
proof -
  obtain x y t where s: "s = (x, y, t)" by (cases s)
  have "length MOVES = 5" by (simp add: MOVES_def)
  then show ?thesis
    using length_filter_le[of _ MOVES] by (simp add: s get_neighbors_def)
qed

lemma process_neighbors_term:
  "astar_term_inv env start max_time st \<Longrightarrow> cur < length (nodes st) \<Longrightarrow>
   \<forall>nb \<in> set nbs. snd (snd nb) = node_t (nodes st ! cur) + 1
                   \<and> nb \<in> state_space env start max_time \<Longrightarrow>
   astar_term_inv env start max_time (foldl (process_neighbor self goal cur) st nbs)
   \<and> astar_measure env start max_time (foldl (process_neighbor self goal cur) st nbs)
       = astar_measure env start max_time st
   \<and> length (nodes (foldl (process_neighbor self goal cur) st nbs))
       \<le> length (nodes st) + length nbs"
proof (induction nbs arbitrary: st)
  case Nil
  then show ?case by simp
next
  case (Cons nb nbs)
  obtain nx ny nt where nb: "nb = (nx, ny, nt)" by (cases nb)
  have nt: "nt = node_t (nodes st ! cur) + 1" and k: "(nx, ny, nt) \<in> state_space env start max_time"
    using Cons.prems(3) nb by auto
  let ?st1 = "process_neighbor self goal cur st nb"
  from process_neighbor_term[OF Cons.prems(1,2) nt k, of self goal]
  obtain ext where T1: "astar_term_inv env start max_time ?st1"
    and m1: "astar_measure env start max_time ?st1 = astar_measure env start max_time st"
    and l1: "length (nodes ?st1) \<le> Suc (length (nodes st))"
    and e1: "nodes ?st1 = nodes st @ ext"
    using nb by auto
  have c1: "cur < length (nodes ?st1)" and n1: "nodes ?st1 ! cur = nodes st ! cur"
    using e1 Cons.prems(2) by (simp_all add: nth_append)
  have "\<forall>nb \<in> set nbs. snd (snd nb) = node_t (nodes ?st1 ! cur) + 1
                   \<and> nb \<in> state_space env start max_time"
    using Cons.prems(3) n1 by simp
  from Cons.IH[OF T1 c1 this] show ?case using m1 l1 by simp
qed

lemma astar_body_term:
  assumes T: "astar_term_inv (astar_env self) start max_time st" and ne: "open_list st \<noteq> []"
  shows "(astar_body self goal max_time st = Continue st' \<longrightarrow>
            astar_term_inv (astar_env self) start max_time st'
            \<and> astar_measure (astar_env self) start max_time st'
                < astar_measure (astar_env self) start max_time st
            \<and> length (nodes st') \<le> length (nodes st) + 5)
       \<and> (astar_body self goal max_time st = Found st' a \<longrightarrow>
            nodes st' = nodes st \<and> a < length (nodes st)
            \<and> astar_term_inv (astar_env self) start max_time st')"
proof -
  let ?env = "astar_env self"
  from T have inv: "astar_inv st" and t0: "\<forall>n \<in> set (nodes st). 0 \<le> node_t n"
    by (auto simp: astar_term_inv_def)
  obtain cur rest where pop: "heappop (node_lt (nodes st)) (open_list st) = (cur, rest)"
    by (cases "heappop (node_lt (nodes st)) (open_list st)")
  have cur: "cur < length (nodes st)"
    using heappop_fst[OF ne, of "node_lt (nodes st)"] pop inv by (auto simp: astar_inv_def)
  have rest: "set rest \<subseteq> set (open_list st)"
    using heappop_snd[OF ne, of "node_lt (nodes st)"] pop by simp
  have lrest: "length rest < length (open_list st)"
    using heappop_length[OF ne, of "node_lt (nodes st)"] pop ne by (cases "open_list st") auto
  let ?c = "nodes st ! cur"
  let ?st1 = "st\<lparr>open_list := rest\<rparr>"
  let ?st2 = "?st1\<lparr>closed_set := insert (node_x ?c, node_y ?c, node_t ?c) (closed_set ?st1)\<rparr>"
  let ?nbs = "get_neighbors ?env (node_x ?c, node_y ?c, node_t ?c)"
  have T1: "astar_term_inv ?env start max_time ?st1"
    using T rest by (auto simp: astar_term_inv_def astar_inv_def)
  have m1: "astar_measure ?env start max_time ?st1 < astar_measure ?env start max_time st"
    using lrest by (simp add: astar_measure_def)
  have T2: "astar_term_inv ?env start max_time ?st2"
    using T1 by (auto simp: astar_term_inv_def astar_inv_def)
  have m2: "astar_measure ?env start max_time ?st2 = astar_measure ?env start max_time ?st1"
    by (simp add: astar_measure_def)
  have tc: "0 \<le> node_t ?c" using t0 cur by simp
  have fold: "astar_term_inv ?env start max_time (foldl (process_neighbor self goal cur) ?st2 ?nbs)
      \<and> astar_measure ?env start max_time (foldl (process_neighbor self goal cur) ?st2 ?nbs)
          = astar_measure ?env start max_time ?st2
      \<and> length (nodes (foldl (process_neighbor self goal cur) ?st2 ?nbs))
          \<le> length (nodes ?st2) + length ?nbs"
    if lt: "node_t ?c < max_time"
  proof (rule process_neighbors_term[OF T2])
    show "cur < length (nodes ?st2)" using cur by simp
    show "\<forall>nb \<in> set ?nbs. snd (snd nb) = node_t (nodes ?st2 ! cur) + 1
                   \<and> nb \<in> state_space ?env start max_time"
      using get_neighbors_time get_neighbors_space[OF _ tc lt] by auto
  qed
  show ?thesis
  proof (cases "(node_x ?c, node_y ?c) = goal")
    case True
    then show ?thesis using pop cur T1 by (auto simp: astar_body_def Let_def)
  next
    case ng: False
    show ?thesis
    proof (cases "node_t ?c \<ge> max_time")
      case True
      then show ?thesis using ng pop T1 m1 by (auto simp: astar_body_def Let_def)
    next
      case False
      then have lt: "node_t ?c < max_time" by simp
      have b: "astar_body self goal max_time st
                 = Continue (foldl (process_neighbor self goal cur) ?st2 ?nbs)"
        using ng False pop by (simp add: astar_body_def Let_def)
      show ?thesis
        unfolding b using fold[OF lt] m1 m2 get_neighbors_length[of ?env "(node_x ?c, node_y ?c, node_t ?c)"]
        by auto
    qed
  qed
qed

lemma reconstruct_total:
  "\<forall>a < length ns. \<forall>b. node_parent (ns ! a) = Some b \<longrightarrow> b < a \<Longrightarrow>
   a < length ns \<Longrightarrow> a < fuel \<Longrightarrow> \<exists>q. reconstruct_loop fuel ns (Some a) p = Some q"
proof (induction fuel arbitrary: a p)
  case 0
  then show ?case by simp
next
  case (Suc fuel)
  show ?case
  proof (cases "node_parent (ns ! a)")
    case None
    then show ?thesis by simp
  next
    case (Some b)
    then have "b < a" using Suc.prems by blast
    then have "b < length ns" "b < fuel" using Suc.prems by auto
    from Suc.IH[OF Suc.prems(1) this] show ?thesis using Some by simp
  qed
qed

lemma astar_loop_total:
  "astar_term_inv (astar_env self) start max_time st \<Longrightarrow>
   astar_measure (astar_env self) start max_time st < fuel \<Longrightarrow>
   length (nodes st) + 5 * astar_measure (astar_env self) start max_time st \<le> rfuel \<Longrightarrow>
   \<exists>r. astar_loop rfuel self goal max_time fuel st = Some r"
proof (induction fuel arbitrary: st)
  case 0
  then show ?case by simp
next
  case (Suc fuel)
  show ?case
  proof (cases "open_list st = []")
    case True
    then show ?thesis by simp
  next
    case False
    show ?thesis
    proof (cases "astar_body self goal max_time st")
      case (Continue st1)
      from astar_body_term[OF Suc.prems(1) False, where goal = goal and st' = st1] Continue
      have T1: "astar_term_inv (astar_env self) start max_time st1"
        and m1: "astar_measure (astar_env self) start max_time st1
                   < astar_measure (astar_env self) start max_time st"
        and l1: "length (nodes st1) \<le> length (nodes st) + 5"
        by auto
      have "astar_measure (astar_env self) start max_time st1 < fuel"
        using m1 Suc.prems(2) by simp
      moreover have "length (nodes st1) + 5 * astar_measure (astar_env self) start max_time st1 \<le> rfuel"
        using m1 l1 Suc.prems(3) by simp
      ultimately show ?thesis using Suc.IH[OF T1] False Continue by simp
    next
      case (Found st1 a)
      from astar_body_term[OF Suc.prems(1) False, where goal = goal and st' = st1 and a = a] Found
      have n: "nodes st1 = nodes st" and a: "a < length (nodes st)"
        and T1: "astar_term_inv (astar_env self) start max_time st1"
        by auto
      have "a < rfuel" using a Suc.prems(3) by simp
      moreover have "\<forall>a < length (nodes st1). \<forall>b. node_parent (nodes st1 ! a) = Some b \<longrightarrow> b < a"
        using T1 by (simp add: astar_term_inv_def)
      ultimately obtain q where "reconstruct_loop rfuel (nodes st1) (Some a) [] = Some q"
        using reconstruct_total[of "nodes st1" a rfuel "[]"] a n by auto
      then show ?thesis using False Found by (simp add: reconstruct_path_def)
    qed
  qed
qed

lemma astar_init_term:
  "astar_term_inv env start max_time (astar_init start goal)
   \<and> astar_measure env start max_time (astar_init start goal) = card (state_space env start max_time)
   \<and> length (nodes (astar_init start goal)) = 1"
proof -
  let ?S = "state_space env start max_time"
  have k: "(fst start, snd start, 0) \<in> ?S" by (simp add: state_space_def)
  have d: "dom (node_dict (astar_init start goal)) = {(fst start, snd start, 0)}"
    by (simp add: astar_init_def Let_def new_SippNode_def)
  have "card (?S - {(fst start, snd start, 0)}) = card ?S - 1"
    using k by (simp add: card_Diff_singleton)
  moreover have "0 < card ?S" using k by (auto simp: card_gt_0_iff)
  moreover have "length (open_list (astar_init start goal)) = 1"
    by (simp add: astar_init_def Let_def)
  ultimately have m: "astar_measure env start max_time (astar_init start goal) = card ?S"
    by (simp add: astar_measure_def d)
  have "astar_term_inv env start max_time (astar_init start goal)"
    unfolding astar_term_inv_def using astar_init_inv[of start goal] d k
    by (simp add: astar_init_def Let_def new_SippNode_def)
  then show ?thesis using m by (simp add: astar_init_def Let_def)
qed

text \<open>
  With enough fuel the low-level search returns: the loop \<open>while open_list\<close> ends, since
  each state enters the open list at most once, and the walk along the parent links
  ends. The bound does not depend on the constraints or on the goal.
\<close>

lemma astar_search_total:
  assumes "5 * card (state_space (astar_env self) start max_time) + 1 \<le> fuel"
  shows "\<exists>p. astar_search fuel self start goal max_time = Some p"
proof -
  let ?S = "state_space (astar_env self) start max_time"
  from astar_init_term[of "astar_env self" start max_time goal]
  have T: "astar_term_inv (astar_env self) start max_time (astar_init start goal)"
    and m: "astar_measure (astar_env self) start max_time (astar_init start goal) = card ?S"
    and l: "length (nodes (astar_init start goal)) = 1"
    by auto
  have "\<exists>r. astar_loop fuel self goal max_time fuel (astar_init start goal) = Some r"
    using assms by (intro astar_loop_total[OF T]) (simp_all add: m l)
  then show ?thesis by (auto simp: astar_search_def astar_run_def)
qed

text \<open>More fuel does not change a result.\<close>

lemma reconstruct_loop_mono:
  "reconstruct_loop fuel ns cur p = Some q \<Longrightarrow> fuel \<le> fuel' \<Longrightarrow>
   reconstruct_loop fuel' ns cur p = Some q"
proof (induction fuel ns cur p arbitrary: fuel' rule: reconstruct_loop.induct)
  case (1 fuel ns p)
  then show ?case by simp
next
  case (2 ns a p)
  then show ?case by simp
next
  case (3 fuel ns a p)
  then obtain f where f: "fuel' = Suc f" "fuel \<le> f" by (cases fuel') auto
  then show ?case using 3 by simp
qed

lemma astar_loop_mono:
  "astar_loop rfuel self goal max_time fuel st = Some r \<Longrightarrow> fuel \<le> fuel' \<Longrightarrow> rfuel \<le> rfuel' \<Longrightarrow>
   astar_loop rfuel' self goal max_time fuel' st = Some r"
proof (induction fuel arbitrary: st fuel')
  case 0
  then show ?case by simp
next
  case (Suc fuel)
  obtain f where f: "fuel' = Suc f" "fuel \<le> f" using Suc.prems(2) by (cases fuel') auto
  show ?case
  proof (cases "open_list st = []")
    case True
    then show ?thesis using Suc.prems f by simp
  next
    case False
    show ?thesis
    proof (cases "astar_body self goal max_time st")
      case (Continue st1)
      then show ?thesis using Suc False f by simp
    next
      case (Found st1 a)
      then obtain q where q: "reconstruct_path rfuel (nodes st1) a = Some q" and r: "r = (st1, q)"
        using Suc.prems(1) False by auto
      have "reconstruct_path rfuel' (nodes st1) a = Some q"
        using q reconstruct_loop_mono[OF _ Suc.prems(3)]
        by (auto simp: reconstruct_path_def)
      then show ?thesis using False Found f r by simp
    qed
  qed
qed

lemma astar_search_mono:
  "astar_search fuel self start goal max_time = Some p \<Longrightarrow> fuel \<le> fuel' \<Longrightarrow>
   astar_search fuel' self start goal max_time = Some p"
  using astar_loop_mono[of fuel self goal max_time fuel "astar_init start goal" _ fuel' fuel']
  by (auto simp: astar_search_def astar_run_def)

lemma state_space_card:
  "card (state_space env start max_time)
     \<le> nat (env_height env) * nat (env_width env) * nat max_time + 1"
proof -
  have "card (state_space env start max_time)
          \<le> Suc (card ({0 ..< env_height env} \<times> {0 ..< env_width env} \<times> {1 .. max_time}))"
    unfolding state_space_def by (rule card_insert_le_m1) simp_all
  then show ?thesis by (simp add: card_cartesian_product)
qed

lemma astar_search_total_bound:
  assumes "5 * (nat (env_height env) * nat (env_width env) * nat max_time + 1) + 1 \<le> fuel"
  shows "\<exists>p. astar_search fuel
            \<lparr>astar_env = env, astar_agent_id = a, astar_constraints = cs\<rparr> start goal max_time
          = Some p"
proof (rule astar_search_total)
  show "5 * card (state_space
           (astar_env \<lparr>astar_env = env, astar_agent_id = a, astar_constraints = cs\<rparr>)
           start max_time) + 1 \<le> fuel"
    using assms state_space_card[of env start max_time] by simp
qed

lemma find_initial_total:
  assumes A: "\<And>a cs s g. \<exists>p. astar_search fuel
            \<lparr>astar_env = env, astar_agent_id = a, astar_constraints = cs\<rparr> s g
            (MAX_TIME_STEPS config) = Some p"
  shows "\<exists>r. find_initial_solutions fuel env config cs agents sols = Some r"
proof (induction agents arbitrary: sols)
  case Nil
  show ?case by simp
next
  case (Cons agent rest)
  obtain p where p: "astar_search fuel
        \<lparr>astar_env = env, astar_agent_id = agent_id agent, astar_constraints = cs\<rparr>
        (agent_start agent) (agent_goal agent) (MAX_TIME_STEPS config) = Some p"
    using A by blast
  show ?case
  proof (cases "p = []")
    case True
    then show ?thesis using p Cons[of sols] by auto
  next
    case False
    then show ?thesis using p Cons[of "dict_set sols (agent_id agent) p"] by auto
  qed
qed

lemma replan_total:
  assumes A: "\<And>a cs s g. \<exists>p. astar_search fuel
            \<lparr>astar_env = env, astar_agent_id = a, astar_constraints = cs\<rparr> s g
            (MAX_TIME_STEPS config) = Some p"
  shows "\<exists>r. replan_agent fuel env config agents a node = Some r"
proof (cases "py_index agents a")
  case (Inl e)
  then show ?thesis by (simp add: replan_agent_def)
next
  case (Inr i)
  obtain p where "astar_search fuel
        \<lparr>astar_env = env, astar_agent_id = a, astar_constraints = cbs_constraints node\<rparr>
        (agent_start (agents ! i)) (agent_goal (agents ! i)) (MAX_TIME_STEPS config) = Some p"
    using A by blast
  then show ?thesis using Inr by (simp add: replan_agent_def Let_def)
qed

lemma expand_total:
  assumes A: "\<And>a cs s g. \<exists>p. astar_search fuel
            \<lparr>astar_env = env, astar_agent_id = a, astar_constraints = cs\<rparr> s g
            (MAX_TIME_STEPS config) = Some p"
  shows "\<exists>r. expand_children fuel env config cur conflict agents ol as = Some r"
proof (induction as arbitrary: agents ol)
  case Nil
  show ?case by simp
next
  case (Cons a as)
  let ?nn = "\<lparr>cbs_constraints = child_constraints (cbs_constraints cur) conflict a,
              cbs_solutions = cbs_solutions cur, cbs_cost = 0, cbs_conflicts = []\<rparr>"
  obtain res where res: "replan_agent fuel env config agents a ?nn = Some res"
    using replan_total[OF A] by blast
  show ?case
  proof (cases res)
    case (Inl e)
    then show ?thesis using res by simp
  next
    case (Inr pr)
    obtain ags1 node1 where pr: "pr = (ags1, node1)" by (cases pr)
    show ?thesis
    proof (cases "find_conflicts (cbs_solutions node1)")
      case (Inl e)
      then show ?thesis using res Inr pr by (simp add: Let_def)
    next
      case fc: (Inr confs)
      show ?thesis
      proof (cases "confs = []")
        case True
        then show ?thesis using res Inr pr fc by (simp add: Let_def)
      next
        case False
        from Cons[of ags1 "heappush cbs_lt ol
                    (node1\<lparr>cbs_cost := calculate_solution_cost (cbs_solutions node1),
                           cbs_conflicts := confs\<rparr>)"]
        show ?thesis using res Inr pr fc False by (simp add: Let_def)
      qed
    qed
  qed
qed

lemma cbs_loop_total:
  assumes A: "\<And>a cs s g. \<exists>p. astar_search fuel
            \<lparr>astar_env = env, astar_agent_id = a, astar_constraints = cs\<rparr> s g
            (MAX_TIME_STEPS config) = Some p"
  shows "\<exists>r. cbs_loop fuel env config agents ol iteration = Some r"
  using A
proof (induction fuel env config agents ol iteration rule: cbs_loop.induct)
  case (1 fuel env config agents ol iteration)
  show ?case
  proof (cases "ol \<noteq> [] \<and> iteration < CBS_MAX_ITERATIONS config")
    case False
    then show ?thesis by (subst cbs_loop.simps) auto
  next
    case True
    obtain cur ol1 where pop: "heappop cbs_lt ol = (cur, ol1)" by (cases "heappop cbs_lt ol")
    show ?thesis
    proof (cases "cbs_conflicts cur")
      case Nil
      then show ?thesis using True pop by (subst cbs_loop.simps) simp
    next
      case (Cons conflict cs)
      obtain res where e: "expand_children fuel env config cur conflict agents ol1
                        [conflict_agent1 conflict, conflict_agent2 conflict] = Some res"
        using expand_total[OF "1.prems"] by blast
      obtain ags1 r where res: "res = (ags1, r)" by (cases res)
      show ?thesis
      proof (cases r)
        case (Inl x)
        then show ?thesis using True pop Cons e res by (subst cbs_loop.simps) simp
      next
        case (Inr ol2)
        from "1.IH"[OF True pop[symmetric] Cons e[unfolded res Inr] refl refl "1.prems"]
        show ?thesis using True pop Cons e res Inr by (subst cbs_loop.simps) simp
      qed
    qed
  qed
qed

text \<open>
  With enough fuel for the low-level searches, \<open>CBS.search\<close> returns or raises: its own
  loop is bounded by the iteration budget.
\<close>

lemma search_total:
  assumes "5 * (nat (env_height env) * nat (env_width env) * nat (MAX_TIME_STEPS config) + 1) + 1
             \<le> fuel"
  shows "\<exists>r. search fuel env config agents = Some r"
proof -
  have A: "\<And>a cs s g. \<exists>p. astar_search fuel
            \<lparr>astar_env = env, astar_agent_id = a, astar_constraints = cs\<rparr> s g
            (MAX_TIME_STEPS config) = Some p"
    using astar_search_total_bound[OF assms] by blast
  obtain ags1 sols where fi:
    "find_initial_solutions fuel env config new_ConstraintsSet agents [] = Some (ags1, sols)"
    using find_initial_total[OF A] by fastforce
  have "\<exists>r. search_exit fuel env config agents = Some r"
  proof (cases "find_conflicts sols")
    case (Inl e)
    then show ?thesis using fi by (simp add: search_exit_def)
  next
    case (Inr confs)
    then show ?thesis using fi cbs_loop_total[OF A] by (simp add: search_exit_def Let_def)
  qed
  then obtain ags ex where "search_exit fuel env config agents = Some (ags, ex)" by auto
  then show ?thesis by (cases ex) (simp_all add: search_def)
qed

end
